theory Spec2Isabelle
  imports Main "HOL-Library.Word" "HOL-Library.Sublist"
begin

section \<open>JavaScript strings\<close>

text \<open>
  A JavaScript string is a sequence of 16-bit code units. String literals of the source are
  written \<open>js ''...''\<close>; characters that cannot be typed inside an Isabelle string
  (line feed, backslash) are given by their code unit; so is the dot where a string is
  split at it.
\<close>

type_synonym jschar = "16 word"
type_synonym jsstring = "jschar list"

definition js :: "string \<Rightarrow> jsstring" where
  "js s = map of_char s"

definition LF :: jschar where
  "LF = 0x0A"

definition BACKSLASH :: jschar where
  "BACKSLASH = 0x5C"

definition DOT :: jschar where
  "DOT = 0x2E"

text \<open>
  The code units matched by \<open>\s\<close> and removed by \<open>String.prototype.trim\<close>: the
  WhiteSpace and LineTerminator productions of ECMAScript.
\<close>

definition isWhiteSpace :: "jschar \<Rightarrow> bool" where
  "isWhiteSpace c \<longleftrightarrow>
     c = 0x09 \<or> c = 0x0A \<or> c = 0x0B \<or> c = 0x0C \<or> c = 0x0D \<or> c = 0x20 \<or> c = 0xA0 \<or>
     c = 0x1680 \<or> (0x2000 \<le> c \<and> c \<le> 0x200A) \<or> c = 0x2028 \<or> c = 0x2029 \<or>
     c = 0x202F \<or> c = 0x205F \<or> c = 0x3000 \<or> c = 0xFEFF"

definition notWhiteSpace :: "jschar \<Rightarrow> bool" where
  "notWhiteSpace c \<longleftrightarrow> \<not> isWhiteSpace c"

text \<open>\<open>\w\<close> is \<open>[A-Za-z0-9_]\<close>.\<close>

definition isWordChar :: "jschar \<Rightarrow> bool" where
  "isWordChar c \<longleftrightarrow>
     (0x41 \<le> c \<and> c \<le> 0x5A) \<or> (0x61 \<le> c \<and> c \<le> 0x7A) \<or> (0x30 \<le> c \<and> c \<le> 0x39) \<or> c = 0x5F"

text \<open>\<open>.\<close> (without the \<open>s\<close> flag) is every code unit but the four line terminators.\<close>

definition isDot :: "jschar \<Rightarrow> bool" where
  "isDot c \<longleftrightarrow> c \<noteq> 0x0A \<and> c \<noteq> 0x0D \<and> c \<noteq> 0x2028 \<and> c \<noteq> 0x2029"

text \<open>\<open>[\s\S]\<close> is every code unit; \<open>[^{}]\<close> is every code unit but the two braces.\<close>

definition isAny :: "jschar \<Rightarrow> bool" where
  "isAny c \<longleftrightarrow> isWhiteSpace c \<or> \<not> isWhiteSpace c"

definition notBrace :: "jschar \<Rightarrow> bool" where
  "notBrace c \<longleftrightarrow> c \<noteq> 0x7B \<and> c \<noteq> 0x7D"

definition trim :: "jsstring \<Rightarrow> jsstring" where
  "trim s = rev (dropWhile isWhiteSpace (rev (dropWhile isWhiteSpace s)))"

definition endsWith :: "jsstring \<Rightarrow> jsstring \<Rightarrow> bool" where
  "endsWith s w \<longleftrightarrow> suffix w s"

text \<open>
  \<open>s.split(d)\<close> for a separator of one code unit: the pieces between the separators,
  \<open>[""]\<close> for the empty string.
\<close>

fun split_acc :: "jschar \<Rightarrow> jsstring \<Rightarrow> jsstring \<Rightarrow> jsstring list" where
  "split_acc d cur [] = [cur]"
| "split_acc d cur (x # xs) =
     (if x = d then cur # split_acc d [] xs else split_acc d (cur @ [x]) xs)"

definition split_on :: "jschar \<Rightarrow> jsstring \<Rightarrow> jsstring list" where
  "split_on d s = split_acc d [] s"

text \<open>
  A value that may be \<open>undefined\<close> is an option; a template literal \<open>${v}\<close> and the
  result of a replacer function are converted with ToString.
\<close>

definition toString :: "jsstring option \<Rightarrow> jsstring" where
  "toString v = (case v of None \<Rightarrow> js ''undefined'' | Some s \<Rightarrow> s)"


section \<open>Regular expressions\<close>

text \<open>
  The regular expressions of the source, as syntax trees, and the backtracking matcher of
  ECMAScript (without flags other than \<open>g\<close>): \<open>m r st\<close> lists the states in which a match of
  \<open>r\<close> started in state \<open>st\<close> can end, in the order in which the backtracking matcher tries
  them, so the head of the list is the match that is found. A state is the index reached,
  the input that remains from there, and the captures set so far.
\<close>

type_synonym captures = "(nat \<times> jsstring) list"
type_synonym mstate = "nat \<times> jsstring \<times> captures"

datatype regex =
    Lit jsstring
  | Cls "jschar \<Rightarrow> bool"
  | Seq regex regex
  | Alt regex regex
  | Star regex
  | Grp nat regex
  | Backref nat
  | Ahead regex
  | Bol
  | Eol

text \<open>\<open>r+\<close> is one \<open>r\<close> followed by \<open>r*\<close>.\<close>

definition Plus :: "regex \<Rightarrow> regex" where
  "Plus r = Seq r (Star r)"

fun groups :: "regex \<Rightarrow> nat list" where
  "groups (Seq r1 r2) = groups r1 @ groups r2"
| "groups (Alt r1 r2) = groups r1 @ groups r2"
| "groups (Star r) = groups r"
| "groups (Grp n r) = n # groups r"
| "groups (Ahead r) = groups r"
| "groups _ = []"

text \<open>
  \<^item> \<open>Star\<close> is greedy: one more iteration first, then the exit. An iteration that consumes
    nothing is rejected, and the captures of the groups inside are reset before it.
  \<^item> \<open>Grp n\<close> captures the text its body consumed.
  \<^item> \<open>Backref n\<close> matches the text captured by group \<open>n\<close>, and the empty string where
    the group has not taken part.
  \<^item> \<open>Ahead\<close> is \<open>(?=...)\<close>: the first way its body matches, consuming nothing.
  \<^item> \<open>Bol\<close> and \<open>Eol\<close> are \<open>^\<close> and \<open>$\<close> without the \<open>m\<close> flag.
\<close>

fun m :: "regex \<Rightarrow> mstate \<Rightarrow> mstate list" where
  "m (Lit w) (i, s, c) =
     (if prefix w s then [(i + length w, drop (length w) s, c)] else [])"
| "m (Cls p) (i, s, c) =
     (case s of [] \<Rightarrow> [] | x # xs \<Rightarrow> if p x then [(Suc i, xs, c)] else [])"
| "m (Seq r1 r2) st = concat (map (m r2) (m r1 st))"
| "m (Alt r1 r2) st = m r1 st @ m r2 st"
| "m (Star r) (i, s, c) =
     concat (map (\<lambda>st'. if length (fst (snd st')) < length s then m (Star r) st' else [])
                 (m r (i, s, filter (\<lambda>(n, _). n \<notin> set (groups r)) c)))
     @ [(i, s, c)]"
| "m (Grp n r) (i, s, c) =
     map (\<lambda>(i', s', c'). (i', s', (n, take (i' - i) s) # filter (\<lambda>(k, _). k \<noteq> n) c'))
         (m r (i, s, c))"
| "m (Backref n) (i, s, c) =
     (case map_of c n of
        None \<Rightarrow> [(i, s, c)]
      | Some w \<Rightarrow> if prefix w s then [(i + length w, drop (length w) s, c)] else [])"
| "m (Ahead r) (i, s, c) =
     (case m r (i, s, c) of [] \<Rightarrow> [] | (_, _, c') # _ \<Rightarrow> [(i, s, c')])"
| "m Bol (i, s, c) = (if i = 0 then [(i, s, c)] else [])"
| "m Eol (i, s, c) = (if s = [] then [(i, s, c)] else [])"

text \<open>
  \<open>new RegExp(source)\<close> numbers the capture groups by their opening parenthesis, from
  left to right, starting at 1.
\<close>

fun number_groups :: "regex \<Rightarrow> nat \<Rightarrow> regex \<times> nat" where
  "number_groups (Grp _ r) n = (let (r', n') = number_groups r (Suc n) in (Grp n r', n'))"
| "number_groups (Seq a b) n =
     (let (a', n1) = number_groups a n; (b', n2) = number_groups b n1 in (Seq a' b', n2))"
| "number_groups (Alt a b) n =
     (let (a', n1) = number_groups a n; (b', n2) = number_groups b n1 in (Alt a' b', n2))"
| "number_groups (Star r) n = (let (r', n') = number_groups r n in (Star r', n'))"
| "number_groups (Ahead r) n = (let (r', n') = number_groups r n in (Ahead r', n'))"
| "number_groups r n = (r, n)"

definition RegExp :: "regex \<Rightarrow> regex" where
  "RegExp r = fst (number_groups r 1)"


subsection \<open>The string methods that take a regular expression\<close>

text \<open>
  In all of them \<open>i\<close> is the index of the input reached and \<open>s\<close> the input from there on.
  A match that ends where it started is empty; the search then moves on by one code unit.

  \<open>s.replace(r, f)\<close> for a global \<open>r\<close> and a replacer \<open>f\<close>, which receives the matched
  text and the captures: every match, found from left to right, each search starting
  where the previous match ended, is replaced by what \<open>f\<close> returns.
\<close>

fun replace_scan :: "regex \<Rightarrow> (jsstring \<Rightarrow> captures \<Rightarrow> jsstring) \<Rightarrow> nat \<Rightarrow> jsstring \<Rightarrow> jsstring" where
  "replace_scan r f i s =
     (case m r (i, s, []) of
        [] \<Rightarrow> (case s of [] \<Rightarrow> [] | x # s' \<Rightarrow> x # replace_scan r f (Suc i) s')
      | (e, s', c) # _ \<Rightarrow>
          f (take (e - i) s) c @
          (if length s' < length s then replace_scan r f e s'
           else (case s of [] \<Rightarrow> [] | x # s'' \<Rightarrow> x # replace_scan r f (Suc i) s'')))"

definition replace_global :: "regex \<Rightarrow> (jsstring \<Rightarrow> captures \<Rightarrow> jsstring) \<Rightarrow> jsstring \<Rightarrow> jsstring" where
  "replace_global r f s = replace_scan r f 0 s"

text \<open>
  \<open>r.exec(s)\<close> for a regular expression without flags: the first index at which \<open>r\<close>
  matches, with the index where the match ends and the captures.
\<close>

fun exec :: "regex \<Rightarrow> nat \<Rightarrow> jsstring \<Rightarrow> (nat \<times> nat \<times> captures) option" where
  "exec r i s =
     (case m r (i, s, []) of
        (e, _, c) # _ \<Rightarrow> Some (i, e, c)
      | [] \<Rightarrow> (case s of [] \<Rightarrow> None | _ # s' \<Rightarrow> exec r (Suc i) s'))"

text \<open>\<open>s.replace(r, w)\<close> for \<open>r\<close> without flags and a replacement \<open>w\<close> free of \<open>$\<close>.\<close>

definition replace_first :: "regex \<Rightarrow> jsstring \<Rightarrow> jsstring \<Rightarrow> jsstring" where
  "replace_first r w s =
     (case exec r 0 s of None \<Rightarrow> s | Some (b, e, _) \<Rightarrow> take b s @ w @ drop e s)"

text \<open>
  \<open>s.match(r)\<close> for a global \<open>r\<close>: the texts of all matches, as the first one and the
  others; no match at all is \<open>null\<close>.
\<close>

fun match_scan :: "regex \<Rightarrow> nat \<Rightarrow> jsstring \<Rightarrow> jsstring list" where
  "match_scan r i s =
     (case m r (i, s, []) of
        [] \<Rightarrow> (case s of [] \<Rightarrow> [] | _ # s' \<Rightarrow> match_scan r (Suc i) s')
      | (e, s', _) # _ \<Rightarrow>
          take (e - i) s #
          (if length s' < length s then match_scan r e s'
           else (case s of [] \<Rightarrow> [] | _ # s'' \<Rightarrow> match_scan r (Suc i) s'')))"

definition match_global :: "regex \<Rightarrow> jsstring \<Rightarrow> (jsstring \<times> jsstring list) option" where
  "match_global r s = (case match_scan r 0 s of [] \<Rightarrow> None | x # xs \<Rightarrow> Some (x, xs))"

text \<open>
  \<open>s.split(r)\<close> for \<open>r\<close> without capture groups: \<open>piece\<close> is the text since the last
  separator. An empty match directly after a separator (or at the start) is no separator.
\<close>

fun split_scan :: "regex \<Rightarrow> nat \<Rightarrow> jsstring \<Rightarrow> jsstring \<Rightarrow> jsstring list" where
  "split_scan r i [] piece = [piece]"
| "split_scan r i (x # s) piece =
     (case m r (i, x # s, []) of
        [] \<Rightarrow> split_scan r (Suc i) s (piece @ [x])
      | (e, s', _) # _ \<Rightarrow>
          if length s' < length (x # s) then piece # split_scan r e s' []
          else if piece = [] then split_scan r (Suc i) s [x]
          else piece # split_scan r (Suc i) s [x])"

definition split_regex :: "regex \<Rightarrow> jsstring \<Rightarrow> jsstring list" where
  "split_regex r s =
     (case s of
        [] \<Rightarrow> (case m r (0, [], []) of [] \<Rightarrow> [[]] | _ # _ \<Rightarrow> [])
      | _ # _ \<Rightarrow> split_scan r 0 s [])"


text \<open>A sequence of terms, \<open>a|b|c\<close>, and \<open>ps.join(sep)\<close> inside a regular expression source.\<close>

fun seq :: "regex list \<Rightarrow> regex" where
  "seq [] = Lit []"
| "seq [r] = r"
| "seq (r # rs) = Seq r (seq rs)"

fun alternatives :: "regex list \<Rightarrow> regex" where
  "alternatives [] = Lit []"
| "alternatives [r] = r"
| "alternatives (r # rs) = Alt r (alternatives rs)"

fun join_regex :: "regex \<Rightarrow> jsstring list \<Rightarrow> regex" where
  "join_regex sep [] = Lit []"
| "join_regex sep [p] = Lit p"
| "join_regex sep (p # ps) = Seq (Lit p) (Seq sep (join_regex sep ps))"


section \<open>The world outside index.js\<close>

text \<open>
  The remote server, the file system, the console, the comment stripper of the
  \<open>strip-comments\<close> package and the contents of \<open>skipclasses.json\<close> are not part of
  the program. A run is followed by its trace: every request sent (with the caller that sent
  it: \<open>getFileListing\<close> or \<open>fetchFileAux\<close>), every directory made and file written
  (a failed \<open>mkdir\<close> or \<open>writeFile\<close> changes nothing and leaves no event), and every
  line logged. What the world answers may depend on everything that has happened before;
  paths are the strings the program passes, as it passes them.
\<close>

datatype error = TransportError | FilesystemError | TypeError | UnrecognizedFlag

datatype caller = Listing | Download

datatype event =
    Get caller jsstring
  | Mkdir jsstring
  | WriteFile jsstring jsstring
  | Log jsstring

type_synonym trace = "event list"

record dirent =
  dirent_name :: jsstring
  dirent_isDirectory :: bool

record world =
  http_get :: "trace \<Rightarrow> jsstring \<Rightarrow> error + jsstring"
  fs_mkdir :: "trace \<Rightarrow> jsstring \<Rightarrow> error option"
  fs_writeFile :: "trace \<Rightarrow> jsstring \<Rightarrow> jsstring \<Rightarrow> error option"
  fs_readFile :: "trace \<Rightarrow> jsstring \<Rightarrow> error + jsstring"
  fs_opendir :: "trace \<Rightarrow> jsstring \<Rightarrow> error + dirent list"
  strip :: "jsstring \<Rightarrow> jsstring"
  skipclasses :: "jsstring set"

text \<open>
  An asynchronous function either returns, or throws (its promise is rejected), or is still
  running when the bound on the depth of its recursion is used up. \<open>await a k\<close> runs \<open>a\<close>
  and goes on with \<open>k\<close> if \<open>a\<close> returned.
\<close>

datatype 'a outcome = Return 'a | Throw error | Timeout

type_synonym 'a action = "trace \<Rightarrow> 'a outcome \<times> trace"

definition await :: "'a action \<Rightarrow> ('a \<Rightarrow> 'b action) \<Rightarrow> 'b action" where
  "await a k t =
     (case a t of
        (Return x, t') \<Rightarrow> k x t'
      | (Throw e, t') \<Rightarrow> (Throw e, t')
      | (Timeout, t') \<Rightarrow> (Timeout, t'))"

definition return :: "'a \<Rightarrow> 'a action" where
  "return x t = (Return x, t)"

definition throw :: "error \<Rightarrow> 'a action" where
  "throw e t = (Throw e, t)"

definition console_log :: "jsstring \<Rightarrow> unit action" where
  "console_log line t = (Return (), t @ [Log line])"

definition mkdir :: "world \<Rightarrow> jsstring \<Rightarrow> unit action" where
  "mkdir w path t =
     (case fs_mkdir w t path of
        Some e \<Rightarrow> (Throw e, t)
      | None \<Rightarrow> (Return (), t @ [Mkdir path]))"

definition writeFile :: "world \<Rightarrow> jsstring \<Rightarrow> jsstring \<Rightarrow> unit action" where
  "writeFile w path content t =
     (case fs_writeFile w t path content of
        Some e \<Rightarrow> (Throw e, t)
      | None \<Rightarrow> (Return (), t @ [WriteFile path content]))"

definition readFile :: "world \<Rightarrow> jsstring \<Rightarrow> jsstring action" where
  "readFile w path t =
     (case fs_readFile w t path of Inl e \<Rightarrow> (Throw e, t) | Inr content \<Rightarrow> (Return content, t))"

definition opendir :: "world \<Rightarrow> jsstring \<Rightarrow> dirent list action" where
  "opendir w path t =
     (case fs_opendir w t path of Inl e \<Rightarrow> (Throw e, t) | Inr ds \<Rightarrow> (Return ds, t))"


section \<open>The program\<close>

subsection \<open>Remote listing client and directory lister\<close>

definition BASE_URL :: jsstring where
  "BASE_URL = js ''https://hg.openjdk.java.net/jdk8u/jdk8u/jdk/raw-file/tip/src/share/classes''"

definition getFileContentsAsString :: "world \<Rightarrow> caller \<Rightarrow> jsstring \<Rightarrow> jsstring action" where
  "getFileContentsAsString w who path t =
     (let url = BASE_URL @ js ''/'' @ path in
      (case http_get w t url of Inl e \<Rightarrow> Throw e | Inr data \<Rightarrow> Return data,
       t @ [Get who url]))"

record entry =
  isDirectory :: bool
  name :: jsstring

text \<open>The arrow function \<open>isDirectory\<close> of \<open>getFileListing\<close>: \<open>entry[0] === 'd'\<close>.\<close>

definition isDirectoryLine :: "jsstring \<Rightarrow> bool" where
  "isDirectoryLine line = (case line of [] \<Rightarrow> False | x # _ \<Rightarrow> [x] = js ''d'')"

definition keepLine :: "jsstring \<Rightarrow> bool" where
  "keepLine line \<longleftrightarrow>
     trim line \<noteq> [] \<and> (endsWith line (js ''.java'') \<or> isDirectoryLine line)"

text \<open>\<open>/\S+$/g\<close>\<close>

definition lastTokenRegex :: regex where
  "lastTokenRegex = RegExp (Seq (Plus (Cls notWhiteSpace)) Eol)"

text \<open>
  The callback of \<open>.map\<close>, line after line: \<open>entry.match(/\S+$/g)[0]\<close> throws a
  TypeError where \<open>match\<close> returns \<open>null\<close>.
\<close>

fun toEntries :: "jsstring list \<Rightarrow> error + entry list" where
  "toEntries [] = Inr []"
| "toEntries (line # lines) =
     (case match_global lastTokenRegex line of
        None \<Rightarrow> Inl TypeError
      | Some ms \<Rightarrow>
          (case toEntries lines of
             Inl e \<Rightarrow> Inl e
           | Inr es \<Rightarrow> Inr (\<lparr>isDirectory = isDirectoryLine line, name = fst ms\<rparr> # es)))"

definition parseListing :: "jsstring \<Rightarrow> error + entry list" where
  "parseListing doc = toEntries (filter keepLine (split_on LF doc))"

definition getFileListing :: "world \<Rightarrow> jsstring \<Rightarrow> entry list action" where
  "getFileListing w path =
     await (getFileContentsAsString w Listing path) (\<lambda>doc.
       case parseListing doc of Inl e \<Rightarrow> throw e | Inr es \<Rightarrow> return es)"


subsection \<open>The rewrite engine\<close>

text \<open>\<open>/\.|\/|\\|\\\\/\<close>\<close>

definition gervillSeparatorRegex :: regex where
  "gervillSeparatorRegex =
     RegExp (alternatives [Lit (js ''.''), Lit (js ''/''), Lit [BACKSLASH], Lit [BACKSLASH, BACKSLASH]])"

text \<open>
  \<open>createGervillRegexSource\<close> reads and increments the global counter \<open>id\<close>, which
  is passed in and returned here. The group it writes gets its number when the joined
  source is compiled. The parts of a package name are letters only, so they stand for
  themselves in the source.
\<close>

definition createGervillRegexSource :: "jsstring \<Rightarrow> nat \<Rightarrow> regex \<times> nat" where
  "createGervillRegexSource path ident =
     (case split_on DOT path of
        [] \<Rightarrow> (Lit (toString None), ident)
      | param1 # params \<Rightarrow>
          if length params = 0 then (Lit param1, ident)
          else (seq [Lit param1, Grp 0 gervillSeparatorRegex, join_regex (Backref ident) params],
                Suc ident))"

definition packages :: "jsstring list" where
  "packages = [js ''javax.sound'', js ''com.sun.media.sound'']"

text \<open>\<open>packages.map(createGervillRegexSource)\<close>, the counter starting at 1.\<close>

fun gervillSources :: "jsstring list \<Rightarrow> nat \<Rightarrow> regex list" where
  "gervillSources [] ident = []"
| "gervillSources (p # ps) ident =
     (let (r, ident') = createGervillRegexSource p ident in r # gervillSources ps ident')"

definition gervillRegex :: regex where
  "gervillRegex = RegExp (alternatives (gervillSources packages 1))"

text \<open>
  \<open>/^[\s\S]*package\s+\S+;\s*(?:import\s+\S+;\s*)*/\<close>
\<close>

definition packageAndImportsRegex :: regex where
  "packageAndImportsRegex =
     RegExp (seq [Bol, Star (Cls isAny), Lit (js ''package''), Plus (Cls isWhiteSpace),
                  Plus (Cls notWhiteSpace), Lit (js '';''), Star (Cls isWhiteSpace),
                  Star (seq [Lit (js ''import''), Plus (Cls isWhiteSpace),
                             Plus (Cls notWhiteSpace), Lit (js '';''), Star (Cls isWhiteSpace)])])"

text \<open>\<open>/\{@link([^{}]+)\}/\<close> and \<open>/(?:@(throws|see))/\<close>, and the two joined by \<open>|\<close>.\<close>

definition commentsLinkRegex :: regex where
  "commentsLinkRegex = RegExp (seq [Lit (js ''{@link''), Grp 0 (Plus (Cls notBrace)), Lit (js ''}'')])"

definition throwsOrSeeRegex :: regex where
  "throwsOrSeeRegex = RegExp (seq [Lit (js ''@''), Grp 0 (alternatives [Lit (js ''throws''), Lit (js ''see'')])])"

definition finalCommentsLinkRegex :: regex where
  "finalCommentsLinkRegex = RegExp (alternatives [commentsLinkRegex, throwsOrSeeRegex])"

definition cleanForComparison :: "world \<Rightarrow> jsstring \<Rightarrow> jsstring" where
  "cleanForComparison w contents = strip w (replace_first packageAndImportsRegex [] contents)"

definition coalesce :: "'a option \<Rightarrow> 'a option \<Rightarrow> 'a option" where
  "coalesce a b = (if a = None then b else a)"

text \<open>
  The first replacer of \<open>createFileCopies\<close>: \<open>rest\<close> holds the captures (and, after
  them, the offset and the input, which the loop does not reach); the loop returns at the
  first capture that is neither \<open>undefined\<close> nor empty, and the function returns
  \<open>undefined\<close> when the loop ends.
\<close>

fun gervillLoop :: "jsstring \<Rightarrow> jsstring option list \<Rightarrow> jsstring option" where
  "gervillLoop match [] = None"
| "gervillLoop match (None # rest) = gervillLoop match rest"
| "gervillLoop match (Some sep # rest) =
     (if sep \<noteq> [] then Some (js ''gervill'' @ sep @ match) else gervillLoop match rest)"

definition gervillReplacer :: "jsstring \<Rightarrow> captures \<Rightarrow> jsstring" where
  "gervillReplacer match c =
     toString (gervillLoop match (map (\<lambda>i. map_of c (Suc i)) [0..<length packages]))"

definition linkReplacer :: "jsstring \<Rightarrow> captures \<Rightarrow> jsstring" where
  "linkReplacer match c = toString (coalesce (map_of c 1) (map_of c 2))"

definition newFileContent :: "jsstring \<Rightarrow> jsstring" where
  "newFileContent originalContent =
     replace_global finalCommentsLinkRegex linkReplacer
       (replace_global gervillRegex gervillReplacer originalContent)"

definition createFileCopies :: "world \<Rightarrow> jsstring \<Rightarrow> jsstring \<Rightarrow> jsstring \<Rightarrow> unit action" where
  "createFileCopies w directory filename originalContent =
     await (mkdir w (js ''../gervill-control/output/src/gervill/'' @ directory)) (\<lambda>_.
     await (mkdir w (js ''../gervill-control/comp/original-comp/'' @ directory)) (\<lambda>_.
     await (mkdir w (js ''../gervill-control/comp/gervill-comp/'' @ directory)) (\<lambda>_.
     let path = directory @ js ''/'' @ filename in
     await (writeFile w (js ''../gervill-control/output/src/gervill/'' @ path)
              (newFileContent originalContent)) (\<lambda>_.
     await (writeFile w (js ''../gervill-control/comp/original-comp/'' @ path)
              (cleanForComparison w originalContent)) (\<lambda>_.
     writeFile w (js ''../gervill-control/comp/gervill-comp/'' @ path)
              (cleanForComparison w (newFileContent originalContent)))))))"


subsection \<open>The mirror fetcher\<close>

definition fetchFileAux :: "world \<Rightarrow> jsstring \<Rightarrow> jsstring \<Rightarrow> bool \<Rightarrow> unit action" where
  "fetchFileAux w directory filename makeCopies =
     await (mkdir w (js ''original/'' @ directory)) (\<lambda>_.
     let path = directory @ js ''/'' @ filename in
     await (console_log (js ''downloading '' @ path)) (\<lambda>_.
     await (getFileContentsAsString w Download path) (\<lambda>originalContent.
     await (console_log (js ''saving      '' @ path)) (\<lambda>_.
     await (writeFile w (js ''original/'' @ path) originalContent) (\<lambda>_.
     if makeCopies then createFileCopies w directory filename originalContent
     else return ())))))"

text \<open>
  \<open>/\/(?=\w+.java)/\<close>. The destructuring \<open>[directory, filename] = ...\<close> takes the first
  two pieces, \<open>undefined\<close> where there is none; both are used in template literals only.
\<close>

definition pathSplitRegex :: regex where
  "pathSplitRegex =
     RegExp (seq [Lit (js ''/''), Ahead (seq [Plus (Cls isWordChar), Cls isDot, Lit (js ''java'')])])"

definition element :: "'a list \<Rightarrow> nat \<Rightarrow> 'a option" where
  "element xs i = (if i < length xs then Some (xs ! i) else None)"

definition fetchFile :: "world \<Rightarrow> jsstring \<Rightarrow> bool \<Rightarrow> unit action" where
  "fetchFile w path makeCopies =
     (let pieces = split_regex pathSplitRegex path;
          directory = element pieces 0;
          filename = element pieces 1
      in fetchFileAux w (toString directory) (toString filename) makeCopies)"

text \<open>
  The walk over the remote directories. The first argument bounds the depth of the
  recursion; the loop over the entries of a listing is \<open>fetchEntries\<close>.
\<close>

fun fetchDirectoryAux :: "nat \<Rightarrow> world \<Rightarrow> jsstring \<Rightarrow> bool \<Rightarrow> unit action"
  and fetchEntries :: "nat \<Rightarrow> world \<Rightarrow> jsstring \<Rightarrow> bool \<Rightarrow> entry list \<Rightarrow> unit action" where
  "fetchDirectoryAux 0 w directory makeCopies t = (Timeout, t)"
| "fetchDirectoryAux (Suc n) w directory makeCopies t =
     (case getFileListing w directory t of
        (Return fileListing, t') \<Rightarrow> fetchEntries n w directory makeCopies fileListing t'
      | (Throw e, t') \<Rightarrow> (Throw e, t')
      | (Timeout, t') \<Rightarrow> (Timeout, t'))"
| "fetchEntries n w directory makeCopies [] t = (Return (), t)"
| "fetchEntries n w directory makeCopies (e # es) t =
     (let fileOrDirName = directory @ js ''/'' @ name e in
      case (if isDirectory e then fetchDirectoryAux n w fileOrDirName makeCopies t
            else if fileOrDirName \<notin> skipclasses w then fetchFileAux w directory (name e) makeCopies t
            else (Return (), t)) of
        (Return _, t') \<Rightarrow> fetchEntries n w directory makeCopies es t'
      | (Throw err, t') \<Rightarrow> (Throw err, t')
      | (Timeout, t') \<Rightarrow> (Timeout, t'))"

text \<open>\<open>/\/$/\<close>\<close>

definition trailingSlashRegex :: regex where
  "trailingSlashRegex = RegExp (seq [Lit (js ''/''), Eol])"

definition fetchDirectory :: "nat \<Rightarrow> world \<Rightarrow> jsstring \<Rightarrow> bool \<Rightarrow> unit action" where
  "fetchDirectory n w path makeCopies =
     fetchDirectoryAux n w (replace_first trailingSlashRegex [] path) makeCopies"


subsection \<open>The copy orchestrator\<close>

definition createCopiesOfSingleFileAux :: "world \<Rightarrow> jsstring \<Rightarrow> jsstring \<Rightarrow> unit action" where
  "createCopiesOfSingleFileAux w directory filename =
     await (readFile w (js ''original/'' @ directory @ js ''/'' @ filename)) (\<lambda>originalContent.
     createFileCopies w directory filename originalContent)"

definition createCopiesOfSingleFile :: "world \<Rightarrow> jsstring \<Rightarrow> unit action" where
  "createCopiesOfSingleFile w path =
     (let pieces = split_regex pathSplitRegex path;
          directory = element pieces 0;
          filename = element pieces 1
      in createCopiesOfSingleFileAux w (toString directory) (toString filename))"

text \<open>
  The walk over the local mirror, bounded in depth like the remote one; the loop over the
  entries of a directory is \<open>createCopiesOfEntries\<close>. The entries of a directory are
  what \<open>opendir\<close> answers when it is opened: the loop writes to the three output trees
  only, never under \<open>original/\<close>.
\<close>

fun createCopiesOfFilesInDir :: "nat \<Rightarrow> world \<Rightarrow> jsstring \<Rightarrow> unit action"
  and createCopiesOfEntries :: "nat \<Rightarrow> world \<Rightarrow> jsstring \<Rightarrow> dirent list \<Rightarrow> unit action" where
  "createCopiesOfFilesInDir 0 w directory t = (Timeout, t)"
| "createCopiesOfFilesInDir (Suc n) w directory t =
     (case opendir w (js ''original/'' @ directory) t of
        (Return dir, t') \<Rightarrow> createCopiesOfEntries n w directory dir t'
      | (Throw e, t') \<Rightarrow> (Throw e, t')
      | (Timeout, t') \<Rightarrow> (Timeout, t'))"
| "createCopiesOfEntries n w directory [] t = (Return (), t)"
| "createCopiesOfEntries n w directory (d # ds) t =
     (case (if dirent_isDirectory d
            then createCopiesOfFilesInDir n w (directory @ js ''/'' @ dirent_name d) t
            else createCopiesOfSingleFileAux w directory (dirent_name d) t) of
        (Return _, t') \<Rightarrow> createCopiesOfEntries n w directory ds t'
      | (Throw err, t') \<Rightarrow> (Throw err, t')
      | (Timeout, t') \<Rightarrow> (Timeout, t'))"

definition createCopiesOfFiles :: "nat \<Rightarrow> world \<Rightarrow> unit action" where
  "createCopiesOfFiles n w = createCopiesOfFilesInDir n w []"


subsection \<open>The command line\<close>

text \<open>\<open>flag\<close> is \<open>process.argv[2]\<close>, \<open>undefined\<close> when the program is run without arguments.\<close>

definition main :: "nat \<Rightarrow> world \<Rightarrow> jsstring option \<Rightarrow> unit action" where
  "main n w flag =
     (if flag = Some (js ''-d'') then
        await (fetchDirectory n w (js ''javax/sound/midi'') False) (\<lambda>_.
        await (fetchDirectory n w (js ''javax/sound/sampled'') False) (\<lambda>_.
        fetchDirectory n w (js ''com/sun/media/sound'') False))
      else if flag = Some (js ''-c'') then createCopiesOfFiles n w
      else throw UnrecognizedFlag)"


section \<open>Worlds and notions used to state the properties\<close>

text \<open>The final whitespace-delimited token of a line, in the words of the specification.\<close>

definition lastToken :: "jsstring \<Rightarrow> jsstring" where
  "lastToken s = rev (takeWhile notWhiteSpace (rev s))"

text \<open>
  A world whose server answers every request with the same document, whose file system
  accepts every \<open>mkdir\<close> and \<open>writeFile\<close> and holds nothing to read, and whose
  comment stripper finds no comment.
\<close>

definition listingWorld :: "jsstring \<Rightarrow> world" where
  "listingWorld doc =
     \<lparr>http_get = (\<lambda>t url. Inr doc),
      fs_mkdir = (\<lambda>t path. None),
      fs_writeFile = (\<lambda>t path content. None),
      fs_readFile = (\<lambda>t path. Inl FilesystemError),
      fs_opendir = (\<lambda>t path. Inl FilesystemError),
      strip = (\<lambda>s. s),
      skipclasses = {}\<rparr>"


text \<open>The three output trees of \<open>createFileCopies\<close>.\<close>

definition renamedTree :: jsstring where
  "renamedTree = js ''../gervill-control/output/src/gervill/''"

definition originalCompTree :: jsstring where
  "originalCompTree = js ''../gervill-control/comp/original-comp/''"

definition gervillCompTree :: jsstring where
  "gervillCompTree = js ''../gervill-control/comp/gervill-comp/''"

text \<open>
  What a call of \<open>createFileCopies\<close> does to the file system when nothing fails: three
  directories made, three files written.
\<close>

definition copyEvents :: "world \<Rightarrow> jsstring \<Rightarrow> jsstring \<Rightarrow> jsstring \<Rightarrow> event list" where
  "copyEvents w directory filename originalContent =
     [Mkdir (renamedTree @ directory),
      Mkdir (originalCompTree @ directory),
      Mkdir (gervillCompTree @ directory),
      WriteFile (renamedTree @ directory @ js ''/'' @ filename) (newFileContent originalContent),
      WriteFile (originalCompTree @ directory @ js ''/'' @ filename)
        (cleanForComparison w originalContent),
      WriteFile (gervillCompTree @ directory @ js ''/'' @ filename)
        (cleanForComparison w (newFileContent originalContent))]"

text \<open>
  A world in which nothing can be written under the original-comparison tree (the tree is
  read-only, say), and everything else succeeds.
\<close>

definition brokenComparisonWorld :: world where
  "brokenComparisonWorld =
     \<lparr>http_get = (\<lambda>t url. Inl TransportError),
      fs_mkdir = (\<lambda>t path. None),
      fs_writeFile = (\<lambda>t path content.
         if prefix originalCompTree path then Some FilesystemError else None),
      fs_readFile = (\<lambda>t path. Inl FilesystemError),
      fs_opendir = (\<lambda>t path. Inl FilesystemError),
      strip = (\<lambda>s. s),
      skipclasses = {}\<rparr>"


text \<open>
  \<open>emits P a\<close>: whatever has happened before, the action \<open>a\<close> only adds events to the
  trace, and every event it adds satisfies \<open>P\<close>.
\<close>

definition emits :: "(event \<Rightarrow> bool) \<Rightarrow> 'a action \<Rightarrow> bool" where
  "emits P a \<longleftrightarrow> (\<forall>t. \<exists>new. snd (a t) = t @ new \<and> (\<forall>ev \<in> set new. P ev))"

text \<open>
  The events a download of the file \<open>f\<close> of the directory \<open>d\<close> by \<open>fetchFileAux\<close>
  can add.
\<close>

definition fileEvents :: "world \<Rightarrow> jsstring \<Rightarrow> jsstring \<Rightarrow> bool \<Rightarrow> event set" where
  "fileEvents w d f mk =
     {Mkdir (js ''original/'' @ d), Log (js ''downloading '' @ d @ js ''/'' @ f),
      Get Download (BASE_URL @ js ''/'' @ d @ js ''/'' @ f),
      Log (js ''saving      '' @ d @ js ''/'' @ f)} \<union>
     {WriteFile (js ''original/'' @ d @ js ''/'' @ f) c | c. True} \<union>
     (if mk then (\<Union>c. set (copyEvents w d f c)) else {})"

text \<open>
  A world with one remote directory, \<open>com/sun/media/sound\<close>, that lists the two files
  \<open>Bad.java\<close> and \<open>Good.java\<close>; the first one is on the exclusion list. Every other
  request is answered with the text of a class.
\<close>

definition exclusionWorld :: world where
  "exclusionWorld =
     \<lparr>http_get = (\<lambda>t url.
         if url = BASE_URL @ js ''/com/sun/media/sound''
         then Inr (js ''-rw-r--r-- 10 Bad.java'' @ [LF] @ js ''-rw-r--r-- 20 Good.java'')
         else Inr (js ''class Good {}'')),
      fs_mkdir = (\<lambda>t path. None),
      fs_writeFile = (\<lambda>t path content. None),
      fs_readFile = (\<lambda>t path. Inl FilesystemError),
      fs_opendir = (\<lambda>t path. Inl FilesystemError),
      strip = (\<lambda>s. s),
      skipclasses = {js ''com/sun/media/sound/Bad.java''}\<rparr>"






text \<open>
  The two passes of \<open>createFileCopies\<close> over the content, by name: \<open>newFileContent\<close> is
  the second applied to the result of the first.
\<close>

definition renamePackages :: "jsstring \<Rightarrow> jsstring" where
  "renamePackages s = replace_global gervillRegex gervillReplacer s"

definition replaceDocTags :: "jsstring \<Rightarrow> jsstring" where
  "replaceDocTags s = replace_global finalCommentsLinkRegex linkReplacer s"

text \<open>
  The separators the package pattern accepts, and a package name written with one of them:
  its parts joined by the separator.
\<close>

definition separators :: "jsstring list" where
  "separators = [js ''.'', js ''/'', [BACKSLASH], [BACKSLASH, BACKSLASH]]"

fun joinWith :: "jsstring \<Rightarrow> jsstring list \<Rightarrow> jsstring" where
  "joinWith sep [] = []"
| "joinWith sep [p] = p"
| "joinWith sep (p # ps) = p @ sep @ joinWith sep ps"

text \<open>
  A scanner given by a function that tells, for the input that remains, how long the match
  at its start is and what replaces it: it replaces the match and goes on behind it, or
  copies one code unit where there is no match. The two passes are scanners of this kind
  (lemmas \<open>replace_scan_gervill\<close> and \<open>replace_scan_doc\<close>), with the match functions
  \<open>gervillMatch\<close> and \<open>docMatch\<close> below.
\<close>

fun scanWith :: "(jsstring \<Rightarrow> (nat \<times> jsstring) option) \<Rightarrow> jsstring \<Rightarrow> jsstring" where
  "scanWith M s =
     (case M s of
        None \<Rightarrow> (case s of [] \<Rightarrow> [] | x # s' \<Rightarrow> x # scanWith M s')
      | Some (n, rep) \<Rightarrow>
          if 0 < n \<and> n \<le> length s then rep @ scanWith M (drop n s)
          else (case s of [] \<Rightarrow> [] | x # s' \<Rightarrow> x # scanWith M s'))"

text \<open>
  The package pattern for one package name, and the eight texts the package pattern
  matches, with the captures of each.
\<close>

definition packageRegex :: "nat \<Rightarrow> jsstring list \<Rightarrow> regex" where
  "packageRegex n parts =
     Seq (Lit (hd parts)) (Seq (Grp n (alternatives (map Lit separators)))
       (join_regex (Backref n) (tl parts)))"

definition gervillForms :: "(jsstring \<times> captures) list" where
  "gervillForms =
     map (\<lambda>sep. (joinWith sep [js ''javax'', js ''sound''], [(1, sep)])) separators @
     map (\<lambda>sep. (joinWith sep [js ''com'', js ''sun'', js ''media'', js ''sound''], [(2, sep)])) separators"

definition gervillMatch :: "jsstring \<Rightarrow> (nat \<times> jsstring) option" where
  "gervillMatch s =
     (case find (\<lambda>(f, c). prefix f s) gervillForms of
        None \<Rightarrow> None
      | Some (f, c) \<Rightarrow> Some (length f, gervillReplacer f c))"

text \<open>
  The doc-tag pattern matches \<open>{@link\<close>, the longest run without braces behind it (not
  empty) and a closing brace, and is replaced by the run; or it matches \<open>@throws\<close> or
  \<open>@see\<close> and is replaced by the word behind the \<open>@\<close>.
\<close>

definition linkInner :: "jsstring \<Rightarrow> jsstring" where
  "linkInner s = takeWhile notBrace (drop 6 s)"

definition docMatch :: "jsstring \<Rightarrow> (nat \<times> jsstring) option" where
  "docMatch s =
     (if prefix (js ''{@link'') s \<and> linkInner s \<noteq> [] \<and>
         prefix (js ''}'') (drop (6 + length (linkInner s)) s)
      then Some (7 + length (linkInner s), linkInner s)
      else if prefix (js ''@throws'') s then Some (7, js ''throws'')
      else if prefix (js ''@see'') s then Some (4, js ''see'')
      else None)"


section \<open>The matcher on the regular expressions of the program\<close>

declare m.simps [simp del]
declare replace_scan.simps [simp del]
declare match_scan.simps [simp del]
declare exec.simps [simp del]

lemma concat_map_concat:
  "concat (map f (concat xss)) = concat (map (\<lambda>xs. concat (map f xs)) xss)"
  by (induction xss) simp_all

lemma m_Seq_assoc: "m (Seq (Seq a b) r) st = m (Seq a (Seq b r)) st"
proof -
  have "m (Seq b r) = (\<lambda>x. concat (map (m r) (m b x)))"
    by (rule ext) (simp add: m.simps(3))
  then show ?thesis by (simp add: m.simps(3) concat_map_concat comp_def)
qed

lemma m_Seq_Cls:
  "m (Seq (Cls p) r) (i, s, c) =
     (case s of [] \<Rightarrow> [] | x # xs \<Rightarrow> if p x then m r (Suc i, xs, c) else [])"
  by (simp add: m.simps split: list.splits)

lemma m_Seq_Lit:
  "m (Seq (Lit w) r) (i, s, c) =
     (if prefix w s then m r (i + length w, drop (length w) s, c) else [])"
  by (simp add: m.simps)

lemma m_Seq_Alt: "m (Seq (Alt a b) r) st = m (Seq a r) st @ m (Seq b r) st"
  by (simp add: m.simps)

lemma lastTokenRegex_eq:
  "lastTokenRegex = Seq (Seq (Cls notWhiteSpace) (Star (Cls notWhiteSpace))) Eol"
  by (simp add: lastTokenRegex_def RegExp_def Plus_def)

lemma m_star_cls_Nil: "m (Star (Cls p)) (i, [], c) = [(i, [], c)]"
  by (subst m.simps(5)) (simp add: m.simps)

lemma m_star_cls_Cons:
  "m (Star (Cls p)) (i, x # xs, c) =
     (if p x then m (Star (Cls p)) (Suc i, xs, c) else []) @ [(i, x # xs, c)]"
  by (subst m.simps(5)) (simp add: m.simps case_prod_unfold)

lemma m_Seq_star_cls_Nil: "m (Seq (Star (Cls p)) r) (i, [], c) = m r (i, [], c)"
  by (simp add: m.simps(3) m_star_cls_Nil)

lemma m_Seq_star_cls_Cons:
  "m (Seq (Star (Cls p)) r) (i, x # xs, c) =
     (if p x then m (Seq (Star (Cls p)) r) (Suc i, xs, c) else []) @ m r (i, x # xs, c)"
  by (simp add: m.simps(3) m_star_cls_Cons)

lemma m_star_cls_eol:
  "m (Seq (Star (Cls p)) Eol) (i, s, c) = (if list_all p s then [(i + length s, [], c)] else [])"
proof (induction s arbitrary: i)
  case Nil
  show ?case by (simp add: m.simps(10) m_Seq_star_cls_Nil)
next
  case (Cons x xs)
  show ?case by (simp add: m.simps(10) m_Seq_star_cls_Cons Cons)
qed

lemma m_lastToken:
  "m lastTokenRegex (i, s, c) =
     (if s \<noteq> [] \<and> list_all notWhiteSpace s then [(i + length s, [], c)] else [])"
proof (cases s)
  case Nil
  then show ?thesis by (simp add: lastTokenRegex_eq m_Seq_assoc m_Seq_Cls)
next
  case (Cons x xs)
  then show ?thesis by (simp add: lastTokenRegex_eq m_Seq_assoc m_Seq_Cls m_star_cls_eol)
qed

lemma takeWhile_all: "\<forall>x \<in> set xs. P x \<Longrightarrow> takeWhile P xs = xs"
  by simp

lemma lastToken_all: "list_all notWhiteSpace s \<Longrightarrow> lastToken s = s"
  by (simp add: lastToken_def list_all_iff takeWhile_all)

lemma lastToken_Cons:
  "\<not> list_all notWhiteSpace (x # xs) \<Longrightarrow> lastToken (x # xs) = lastToken xs"
proof (cases "list_all notWhiteSpace xs")
  case True
  assume "\<not> list_all notWhiteSpace (x # xs)"
  with True have "\<not> notWhiteSpace x" by simp
  have "takeWhile notWhiteSpace (rev xs @ [x]) = rev xs @ takeWhile notWhiteSpace [x]"
    by (rule takeWhile_append2) (use True in \<open>simp add: list_all_iff\<close>)
  with True \<open>\<not> notWhiteSpace x\<close> show ?thesis
    by (simp add: lastToken_def list_all_iff takeWhile_all)
next
  case False
  then obtain y where "y \<in> set (rev xs)" "\<not> notWhiteSpace y" by (auto simp: list_all_iff)
  then show ?thesis by (simp add: lastToken_def)
qed

lemma match_scan_lastToken:
  "match_scan lastTokenRegex i s =
     (if s \<noteq> [] \<and> notWhiteSpace (last s) then [lastToken s] else [])"
proof (induction s arbitrary: i)
  case Nil
  show ?case by (subst match_scan.simps) (simp add: m_lastToken)
next
  case (Cons x xs)
  show ?case
  proof (cases "list_all notWhiteSpace (x # xs)")
    case True
    then have "notWhiteSpace (last (x # xs))"
      by (metis last_in_set list.distinct(1) list_all_iff)
    moreover have "match_scan lastTokenRegex (i + length (x # xs)) [] = []"
      by (subst match_scan.simps) (simp add: m_lastToken)
    ultimately show ?thesis using True lastToken_all[OF True]
      by (subst match_scan.simps) (simp add: m_lastToken)
  next
    case False
    have "xs = [] \<Longrightarrow> \<not> notWhiteSpace x" using False by simp
    then show ?thesis using False Cons[of "Suc i"] lastToken_Cons[OF False]
      by (subst match_scan.simps) (auto simp add: m_lastToken)
  qed
qed

lemma match_global_lastToken:
  "match_global lastTokenRegex s =
     (if s \<noteq> [] \<and> notWhiteSpace (last s) then Some (lastToken s, []) else None)"
  by (simp add: match_global_def match_scan_lastToken)

lemma toEntries_ok:
  "\<forall>l \<in> set ls. l \<noteq> [] \<and> notWhiteSpace (last l) \<Longrightarrow>
   toEntries ls = Inr (map (\<lambda>l. \<lparr>isDirectory = isDirectoryLine l, name = lastToken l\<rparr>) ls)"
  by (induction ls) (simp_all add: match_global_lastToken)

lemma toEntries_fail:
  "\<exists>l \<in> set ls. l = [] \<or> \<not> notWhiteSpace (last l) \<Longrightarrow> toEntries ls = Inl TypeError"
proof (induction ls)
  case Nil
  then show ?case by simp
next
  case (Cons l ls)
  show ?case
  proof (cases "l = [] \<or> \<not> notWhiteSpace (last l)")
    case True
    then show ?thesis by (auto simp add: match_global_lastToken)
  next
    case False
    with Cons show ?thesis by (auto simp add: match_global_lastToken)
  qed
qed

lemma dropWhile_has:
  "(\<exists>x \<in> set (dropWhile P s). \<not> P x) \<longleftrightarrow> (\<exists>x \<in> set s. \<not> P x)"
  by (induction s) auto

lemma trim_nonempty: "trim s \<noteq> [] \<longleftrightarrow> (\<exists>c \<in> set s. \<not> isWhiteSpace c)"
proof -
  have "trim s \<noteq> [] \<longleftrightarrow> (\<exists>x \<in> set (rev (dropWhile isWhiteSpace s)). \<not> isWhiteSpace x)"
    unfolding trim_def by simp
  also have "\<dots> \<longleftrightarrow> (\<exists>c \<in> set s. \<not> isWhiteSpace c)"
    using dropWhile_has[of isWhiteSpace s] by simp
  finally show ?thesis .
qed

lemma keepLine_nonempty: "keepLine l \<Longrightarrow> l \<noteq> []"
  by (auto simp add: keepLine_def trim_nonempty)


lemma m_Seq_Bol: "m (Seq Bol r) (i, s, c) = (if i = 0 then m r (i, s, c) else [])"
  by (simp add: m.simps)

lemma m_Seq_Eol: "m (Seq Eol r) (i, s, c) = (if s = [] then m r (i, s, c) else [])"
  by (simp add: m.simps)

lemma m_Seq_Star:
  "m (Seq (Star a) r) (i, s, c) =
     concat (map (\<lambda>st'. if length (fst (snd st')) < length s then m (Seq (Star a) r) st' else [])
                 (m a (i, s, filter (\<lambda>(n, _). n \<notin> set (groups a)) c)))
     @ m r (i, s, c)"
proof -
  have "(\<lambda>st'. concat (map (m r) (if length (fst (snd st')) < length s then m (Star a) st' else [])))
      = (\<lambda>st'. if length (fst (snd st')) < length s then m (Seq (Star a) r) st' else [])"
    by (rule ext) (simp add: m.simps(3))
  then show ?thesis
    by (simp add: m.simps(3) m.simps(5)[of a i s c] concat_map_concat comp_def)
qed


lemmas m_eval = m_Seq_assoc m_Seq_Cls m_Seq_Lit m_Seq_Alt m_Seq_Bol m_Seq_Eol
  m_Seq_star_cls_Nil m_Seq_star_cls_Cons m_star_cls_Nil m_star_cls_Cons m_Seq_Star m.simps

lemma gervillRegex_eq:
  "gervillRegex =
     Alt (Seq (Lit (js ''javax''))
           (Seq (Grp 1 (Alt (Lit (js ''.'')) (Alt (Lit (js ''/'')) (Alt (Lit [BACKSLASH]) (Lit [BACKSLASH, BACKSLASH])))))
                (Lit (js ''sound''))))
         (Seq (Lit (js ''com''))
           (Seq (Grp 2 (Alt (Lit (js ''.'')) (Alt (Lit (js ''/'')) (Alt (Lit [BACKSLASH]) (Lit [BACKSLASH, BACKSLASH])))))
           (Seq (Lit (js ''sun'')) (Seq (Backref 2) (Seq (Lit (js ''media'')) (Seq (Backref 2) (Lit (js ''sound''))))))))"
proof -
  have "split_on DOT (js ''javax.sound'') = [js ''javax'', js ''sound'']"
    by (simp add: split_on_def js_def DOT_def)
  moreover have "split_on DOT (js ''com.sun.media.sound'')
      = [js ''com'', js ''sun'', js ''media'', js ''sound'']"
    by (simp add: split_on_def js_def DOT_def)
  ultimately show ?thesis
    by (simp add: gervillRegex_def RegExp_def packages_def createGervillRegexSource_def
          gervillSeparatorRegex_def)
qed

lemma finalCommentsLinkRegex_eq:
  "finalCommentsLinkRegex =
     Alt (Seq (Lit (js ''{@link''))
           (Seq (Grp 1 (Seq (Cls notBrace) (Star (Cls notBrace)))) (Lit (js ''}''))))
         (Seq (Lit (js ''@'')) (Grp 2 (Alt (Lit (js ''throws'')) (Lit (js ''see'')))))"
  by (simp add: finalCommentsLinkRegex_def RegExp_def commentsLinkRegex_def throwsOrSeeRegex_def Plus_def)

lemmas run_eval = replace_global_def replace_scan.simps gervillRegex_eq finalCommentsLinkRegex_eq
  m_eval js_def LF_def BACKSLASH_def notBrace_def gervillReplacer_def linkReplacer_def
  packages_def coalesce_def toString_def


section \<open>The directory lister\<close>

lemmas js_eval = js_def LF_def BACKSLASH_def split_on_def isWhiteSpace_def

lemma keepLine_iff:
  "keepLine l \<longleftrightarrow>
     (\<exists>c \<in> set l. \<not> isWhiteSpace c) \<and> (prefix (js ''d'') l \<or> suffix (js ''.java'') l)"
  by (cases l) (auto simp add: keepLine_def trim_nonempty endsWith_def isDirectoryLine_def js_def)

lemma isDirectoryLine_iff: "isDirectoryLine l \<longleftrightarrow> prefix (js ''d'') l"
  by (cases l) (auto simp add: isDirectoryLine_def js_def)

lemma getFileListing_unfold:
  "http_get w t (BASE_URL @ js ''/'' @ path) = Inr doc \<Longrightarrow>
   getFileListing w path t =
     (case parseListing doc of Inl e \<Rightarrow> Throw e | Inr es \<Rightarrow> Return es,
      t @ [Get Listing (BASE_URL @ js ''/'' @ path)])"
  by (simp add: getFileListing_def await_def getFileContentsAsString_def Let_def throw_def return_def
           split: sum.splits)

lemma parseListing_fail:
  "l \<in> set (split_on LF doc) \<Longrightarrow> keepLine l \<Longrightarrow> isWhiteSpace (last l) \<Longrightarrow>
   parseListing doc = Inl TypeError"
  unfolding parseListing_def
  by (rule toEntries_fail) (auto simp add: notWhiteSpace_def)

lemma parseListing_ok:
  "\<forall>l \<in> set (split_on LF doc). keepLine l \<longrightarrow> \<not> isWhiteSpace (last l) \<Longrightarrow>
   parseListing doc =
     Inr (map (\<lambda>l. \<lparr>isDirectory = isDirectoryLine l, name = lastToken l\<rparr>)
           (filter keepLine (split_on LF doc)))"
  unfolding parseListing_def
  by (rule toEntries_ok) (auto simp add: notWhiteSpace_def keepLine_nonempty)

text \<open>
  Claim C4 does not hold for every listing document: a kept line that ends in a whitespace
  character has no match of \<open>/\S+$/\<close>, and \<open>getFileListing\<close> throws. Here the only line
  is a directory line with a space at its end.
\<close>

theorem getFileListing_trailing_space_counterexample:
  "keepLine (js ''drwxr-xr-x midi '') \<and>
   fst (getFileListing (listingWorld (js ''drwxr-xr-x midi '')) (js ''javax/sound'') [])
     = Throw TypeError"
  by (simp add: getFileListing_unfold listingWorld_def parseListing_def js_eval keepLine_iff
        match_global_lastToken notWhiteSpace_def)

text \<open>
  Claim C4, amended: for every listing document in which no kept line ends in a whitespace
  character, \<open>getFileListing\<close> returns exactly one entry per line whose trimmed text is not
  empty and which starts with \<open>d\<close> or ends with \<open>.java\<close>, in the order of the document;
  the \<open>isDirectory\<close> flag of an entry is true exactly when its line starts with \<open>d\<close>,
  and its name is the final whitespace-delimited token of the line. (One request, for the
  listing, is sent.)
\<close>

theorem getFileListing_entries:
  assumes "http_get w t (BASE_URL @ js ''/'' @ path) = Inr doc"
    and "\<forall>line \<in> set (split_on LF doc).
           (\<exists>c \<in> set line. \<not> isWhiteSpace c) \<and>
           (prefix (js ''d'') line \<or> suffix (js ''.java'') line)
           \<longrightarrow> \<not> isWhiteSpace (last line)"
  shows "getFileListing w path t =
           (Return (map (\<lambda>line. \<lparr>isDirectory = prefix (js ''d'') line, name = lastToken line\<rparr>)
                     (filter (\<lambda>line. (\<exists>c \<in> set line. \<not> isWhiteSpace c) \<and>
                                      (prefix (js ''d'') line \<or> suffix (js ''.java'') line))
                        (split_on LF doc))),
            t @ [Get Listing (BASE_URL @ js ''/'' @ path)])"
proof -
  have "parseListing doc =
     Inr (map (\<lambda>l. \<lparr>isDirectory = isDirectoryLine l, name = lastToken l\<rparr>)
           (filter keepLine (split_on LF doc)))"
    by (rule parseListing_ok) (use assms(2) in \<open>simp add: keepLine_iff\<close>)
  moreover have "keepLine = (\<lambda>line. (\<exists>c \<in> set line. \<not> isWhiteSpace c) \<and>
                                      (prefix (js ''d'') line \<or> suffix (js ''.java'') line))"
    by (rule ext) (rule keepLine_iff)
  ultimately show ?thesis
    by (simp add: getFileListing_unfold[OF assms(1)] isDirectoryLine_iff)
qed

text \<open>
  A listing of four lines: a directory, an empty line, a Java file and a file that is not
  Java.
\<close>

theorem getFileListing_entries_witness:
  "getFileListing
     (listingWorld (js ''drwxr-xr-x midi'' @ [LF, LF] @ js ''-rw-r--r-- 9 A.java'' @ [LF] @
                    js ''-rw-r--r-- 5 b.html'' @ [LF]))
     (js ''javax/sound'') [] =
     (Return [\<lparr>isDirectory = True, name = js ''midi''\<rparr>,
              \<lparr>isDirectory = False, name = js ''A.java''\<rparr>],
      [Get Listing (BASE_URL @ js ''/javax/sound'')])"
  using getFileListing_entries
          [of "listingWorld (js ''drwxr-xr-x midi'' @ [LF, LF] @ js ''-rw-r--r-- 9 A.java'' @ [LF] @
                             js ''-rw-r--r-- 5 b.html'' @ [LF])"
              "[]" "js ''javax/sound''"
              "js ''drwxr-xr-x midi'' @ [LF, LF] @ js ''-rw-r--r-- 9 A.java'' @ [LF] @
               js ''-rw-r--r-- 5 b.html'' @ [LF]"]
  by (simp add: listingWorld_def js_eval lastToken_def notWhiteSpace_def suffix_to_prefix)

text \<open>
  Claim C10: a listing line that passes the filter of \<open>getFileListing\<close> (its trimmed text
  is not empty, and it starts with \<open>d\<close> or ends with \<open>.java\<close>) but ends in a whitespace
  character has no final-token match (\<open>match\<close> returns \<open>null\<close>), and
  \<open>getFileListing\<close> throws a TypeError instead of returning entries.
\<close>

theorem getFileListing_fails_on_trailing_whitespace:
  assumes "http_get w t (BASE_URL @ js ''/'' @ path) = Inr doc"
    and "line \<in> set (split_on LF doc)"
    and "\<exists>c \<in> set line. \<not> isWhiteSpace c"
    and "prefix (js ''d'') line \<or> suffix (js ''.java'') line"
    and "isWhiteSpace (last line)"
  shows "match_global lastTokenRegex line = None \<and>
         fst (getFileListing w path t) = Throw TypeError"
proof -
  from assms(3,4) have k: "keepLine line" by (simp add: keepLine_iff)
  then have "line \<noteq> []" by (rule keepLine_nonempty)
  with assms(5) have "match_global lastTokenRegex line = None"
    by (simp add: match_global_lastToken notWhiteSpace_def)
  moreover have "parseListing doc = Inl TypeError"
    using assms(2) k assms(5) by (rule parseListing_fail)
  ultimately show ?thesis by (simp add: getFileListing_unfold[OF assms(1)])
qed

text \<open>A listing with CRLF line ends: every line ends in a carriage return.\<close>

theorem getFileListing_fails_on_trailing_whitespace_witness:
  "fst (getFileListing
          (listingWorld (js ''drwxr-xr-x midi'' @ [0x0D, LF] @ js ''-rw-r--r-- 9 A.java'' @ [0x0D, LF]))
          (js ''javax/sound'') []) = Throw TypeError"
  using getFileListing_fails_on_trailing_whitespace
          [of "listingWorld (js ''drwxr-xr-x midi'' @ [0x0D, LF] @ js ''-rw-r--r-- 9 A.java'' @ [0x0D, LF])"
              "[]" "js ''javax/sound''"
              "js ''drwxr-xr-x midi'' @ [0x0D, LF] @ js ''-rw-r--r-- 9 A.java'' @ [0x0D, LF]"
              "js ''drwxr-xr-x midi'' @ [0x0D]"]
  by (simp add: listingWorld_def js_eval)


section \<open>The rewrite engine\<close>


lemma createFileCopies_cases:
  "(createFileCopies w d f c t = (Return (), t @ copyEvents w d f c)) \<or>
   (\<exists>e k. k < 6 \<and> createFileCopies w d f c t = (Throw e, t @ take k (copyEvents w d f c)))"
proof -
  let ?evs = "copyEvents w d f c"
  let ?r = "createFileCopies w d f c t"
  have unf: "createFileCopies w d f c t =
     (case fs_mkdir w t (renamedTree @ d) of Some e \<Rightarrow> (Throw e, t) | None \<Rightarrow>
      (case fs_mkdir w (t @ take 1 ?evs) (originalCompTree @ d) of Some e \<Rightarrow> (Throw e, t @ take 1 ?evs) | None \<Rightarrow>
      (case fs_mkdir w (t @ take 2 ?evs) (gervillCompTree @ d) of Some e \<Rightarrow> (Throw e, t @ take 2 ?evs) | None \<Rightarrow>
      (case fs_writeFile w (t @ take 3 ?evs) (renamedTree @ d @ js ''/'' @ f) (newFileContent c) of Some e \<Rightarrow> (Throw e, t @ take 3 ?evs) | None \<Rightarrow>
      (case fs_writeFile w (t @ take 4 ?evs) (originalCompTree @ d @ js ''/'' @ f) (cleanForComparison w c) of Some e \<Rightarrow> (Throw e, t @ take 4 ?evs) | None \<Rightarrow>
      (case fs_writeFile w (t @ take 5 ?evs) (gervillCompTree @ d @ js ''/'' @ f) (cleanForComparison w (newFileContent c)) of Some e \<Rightarrow> (Throw e, t @ take 5 ?evs) | None \<Rightarrow>
      (Return (), t @ ?evs)))))))"
    by (simp add: createFileCopies_def await_def mkdir_def writeFile_def Let_def copyEvents_def
          renamedTree_def originalCompTree_def gervillCompTree_def split: option.splits)
  show ?thesis
  proof (cases "fst ?r")
    case (Return u)
    then show ?thesis by (simp add: unf split: option.splits)
  next
    case (Throw e)
    have "\<exists>k<6. ?r = (Throw e, t @ take k ?evs)"
    proof -
      from Throw have
        "?r = (Throw e, t @ take 0 ?evs) \<or> ?r = (Throw e, t @ take 1 ?evs) \<or> ?r = (Throw e, t @ take 2 ?evs) \<or>
         ?r = (Throw e, t @ take 3 ?evs) \<or> ?r = (Throw e, t @ take 4 ?evs) \<or> ?r = (Throw e, t @ take 5 ?evs)"
        unfolding unf by (simp split: option.splits)
      then show ?thesis
        apply (elim disjE)
        apply (rule exI[of _ 0], simp)
        apply (rule exI[of _ 1], simp)
        apply (rule exI[of _ 2], simp)
        apply (rule exI[of _ 3], simp)
        apply (rule exI[of _ 4], simp)
        apply (rule exI[of _ 5], simp)
        done
    qed
    then show ?thesis by blast
  next
    case Timeout
    then show ?thesis by (simp add: unf split: option.splits)
  qed
qed




text \<open>
  Claim C8 does not hold when an operation fails in the middle of the call: the three
  files are written one after the other, and nothing undoes a write. Here the renamed copy
  has been written when the write of the original-comparison copy fails, and the
  renamed-comparison copy is never written.
\<close>

theorem createFileCopies_partial_counterexample:
  "createFileCopies brokenComparisonWorld (js ''javax/sound/midi'') (js ''A.java'')
     (js ''class A {}'') []
   = (Throw FilesystemError,
      [Mkdir (renamedTree @ js ''javax/sound/midi''),
       Mkdir (originalCompTree @ js ''javax/sound/midi''),
       Mkdir (gervillCompTree @ js ''javax/sound/midi''),
       WriteFile (renamedTree @ js ''javax/sound/midi/A.java'') (js ''class A {}'')])"
proof -
  have "newFileContent (js ''class A {}'') = js ''class A {}''"
    by (simp add: newFileContent_def run_eval)
  then show ?thesis
    by (simp add: createFileCopies_def await_def mkdir_def writeFile_def brokenComparisonWorld_def
          renamedTree_def originalCompTree_def gervillCompTree_def Let_def js_def)
qed

text \<open>
  Claim C8, amended: a call of \<open>createFileCopies\<close> that returns has made the three
  directories and written the three derived files, in this order and within this call, all
  from the same input content: the renamed copy, the header- and comment-stripped original,
  and the header- and comment-stripped renamed copy. A call in which a file-system
  operation fails throws, having done exactly the operations before the failing one: the
  files written before the failure stay written and the later ones are not written.
\<close>

theorem createFileCopies_all_or_prefix:
  "(createFileCopies w directory filename originalContent t
      = (Return (), t @ copyEvents w directory filename originalContent)) \<or>
   (\<exists>e k. k < 6 \<and>
      createFileCopies w directory filename originalContent t
        = (Throw e, t @ take k (copyEvents w directory filename originalContent)))"
  by (rule createFileCopies_cases)

theorem createFileCopies_all_or_prefix_witness:
  "createFileCopies (listingWorld []) (js ''javax/sound/midi'') (js ''A.java'') (js ''class A {}'') []
   = (Return (), copyEvents (listingWorld []) (js ''javax/sound/midi'') (js ''A.java'') (js ''class A {}''))"
  using createFileCopies_all_or_prefix
          [of "listingWorld []" "js ''javax/sound/midi''" "js ''A.java''" "js ''class A {}''" "[]"]
  by (auto simp add: createFileCopies_def await_def mkdir_def writeFile_def listingWorld_def Let_def)


section \<open>The mirror fetcher\<close>

lemma emitsD: "emits P a \<Longrightarrow> \<exists>new. snd (a t) = t @ new \<and> (\<forall>ev \<in> set new. P ev)"
  by (simp add: emits_def)

lemma emits_return: "emits P (return x)"
  by (simp add: emits_def return_def)

lemma emits_throw: "emits P (throw e)"
  by (simp add: emits_def throw_def)

lemma emits_await:
  assumes "emits P a" and "\<And>x. emits P (k x)"
  shows "emits P (await a k)"
  unfolding emits_def
proof
  fix t
  from assms(1) obtain n1 where 1: "snd (a t) = t @ n1" "\<forall>ev \<in> set n1. P ev"
    by (auto simp add: emits_def)
  show "\<exists>new. snd (await a k t) = t @ new \<and> (\<forall>ev \<in> set new. P ev)"
  proof (cases "a t")
    case (Pair r t')
    with 1 have t': "t' = t @ n1" by simp
    show ?thesis
    proof (cases r)
      case (Return x)
      from assms(2)[of x] obtain n2 where 2: "snd (k x t') = t' @ n2" "\<forall>ev \<in> set n2. P ev"
        by (auto simp add: emits_def)
      have "snd (await a k t) = t @ (n1 @ n2)"
        using Pair Return 2 t' by (simp add: await_def)
      moreover have "\<forall>ev \<in> set (n1 @ n2). P ev" using 1 2 by auto
      ultimately show ?thesis by blast
    next
      case (Throw e)
      then show ?thesis using Pair t' 1 by (auto simp add: await_def)
    next
      case Timeout
      then show ?thesis using Pair t' 1 by (auto simp add: await_def)
    qed
  qed
qed

lemma emits_console_log: "P (Log l) \<Longrightarrow> emits P (console_log l)"
  by (simp add: emits_def console_log_def)

lemma emits_mkdir: "P (Mkdir p) \<Longrightarrow> emits P (mkdir w p)"
  by (simp add: emits_def mkdir_def split: option.splits)

lemma emits_writeFile: "P (WriteFile p c) \<Longrightarrow> emits P (writeFile w p c)"
  by (simp add: emits_def writeFile_def split: option.splits)

lemma emits_readFile: "emits P (readFile w p)"
  by (simp add: emits_def readFile_def split: sum.splits)

lemma emits_opendir: "emits P (opendir w p)"
  by (simp add: emits_def opendir_def split: sum.splits)

lemma emits_get: "P (Get who (BASE_URL @ js ''/'' @ p)) \<Longrightarrow> emits P (getFileContentsAsString w who p)"
  by (simp add: emits_def getFileContentsAsString_def Let_def)

lemma emits_getFileListing:
  "P (Get Listing (BASE_URL @ js ''/'' @ p)) \<Longrightarrow> emits P (getFileListing w p)"
  unfolding getFileListing_def
  by (rule emits_await) (auto intro: emits_get emits_throw emits_return split: sum.splits)

lemma emits_createFileCopies:
  assumes "\<And>ev. ev \<in> set (copyEvents w d f c) \<Longrightarrow> P ev"
  shows "emits P (createFileCopies w d f c)"
  unfolding emits_def
proof
  fix t
  from createFileCopies_cases[of w d f c t]
  obtain k where "snd (createFileCopies w d f c t) = t @ take k (copyEvents w d f c)"
    by (metis snd_conv take_all order_refl)
  moreover have "\<forall>ev \<in> set (take k (copyEvents w d f c)). P ev"
    using assms by (meson in_set_takeD)
  ultimately show "\<exists>new. snd (createFileCopies w d f c t) = t @ new \<and> (\<forall>ev \<in> set new. P ev)"
    by blast
qed

lemma emits_fetchFileAux:
  assumes "\<And>ev. ev \<in> fileEvents w d f mk \<Longrightarrow> P ev"
  shows "emits P (fetchFileAux w d f mk)"
  unfolding fetchFileAux_def Let_def
  apply (intro emits_await emits_mkdir emits_console_log emits_get emits_writeFile)
      apply (simp_all add: assms fileEvents_def)
  apply (auto intro!: emits_return emits_createFileCopies assms simp add: fileEvents_def)
  done

lemma fetchDirectoryAux_Suc:
  "fetchDirectoryAux (Suc n) w d mk = await (getFileListing w d) (\<lambda>l. fetchEntries n w d mk l)"
  by (rule ext) (simp add: await_def split: prod.splits outcome.splits)

lemma fetchEntries_Cons:
  "fetchEntries n w d mk (e # es) =
     await (if isDirectory e then fetchDirectoryAux n w (d @ js ''/'' @ name e) mk
            else if d @ js ''/'' @ name e \<notin> skipclasses w then fetchFileAux w d (name e) mk
            else return ())
           (\<lambda>_. fetchEntries n w d mk es)"
  by (rule ext) (simp add: await_def Let_def return_def split: prod.splits outcome.splits)

lemma emits_Timeout: "emits P (\<lambda>t. (Timeout, t))"
  by (simp add: emits_def)

lemma emits_walk:
  assumes L: "\<And>url. P (Get Listing url)"
    and F: "\<And>d f ev. d @ js ''/'' @ f \<notin> skipclasses w \<Longrightarrow> ev \<in> fileEvents w d f mk \<Longrightarrow> P ev"
  shows "emits P (fetchDirectoryAux n w d mk)"
proof (induction n arbitrary: d)
  case 0
  have "fetchDirectoryAux 0 w d mk = (\<lambda>t. (Timeout, t))" by (rule ext) simp
  then show ?case by (simp add: emits_Timeout)
next
  case (Suc n)
  have E: "emits P (fetchEntries n w d mk es)" for d es
  proof (induction es)
    case Nil
    have "fetchEntries n w d mk [] = return ()" by (rule ext) (simp add: return_def)
    then show ?case by (simp add: emits_return)
  next
    case (Cons e es)
    show ?case
      unfolding fetchEntries_Cons
      by (rule emits_await) (auto intro: Suc emits_fetchFileAux emits_return F Cons)
  qed
  show ?case
    unfolding fetchDirectoryAux_Suc
    by (rule emits_await) (auto intro: emits_getFileListing L E)
qed

lemma emits_fetchDirectory:
  assumes L: "\<And>url. P (Get Listing url)"
    and F: "\<And>d f ev. d @ js ''/'' @ f \<notin> skipclasses w \<Longrightarrow> ev \<in> fileEvents w d f mk \<Longrightarrow> P ev"
  shows "emits P (fetchDirectory n w root mk)"
  unfolding fetchDirectory_def by (rule emits_walk) (auto intro: L F)

lemma trees_distinct:
  "renamedTree @ a \<noteq> originalCompTree @ b" "renamedTree @ a \<noteq> gervillCompTree @ b"
  "originalCompTree @ a \<noteq> renamedTree @ b" "originalCompTree @ a \<noteq> gervillCompTree @ b"
  "gervillCompTree @ a \<noteq> renamedTree @ b" "gervillCompTree @ a \<noteq> originalCompTree @ b"
  "js ''original/'' @ a \<noteq> renamedTree @ b" "js ''original/'' @ a \<noteq> originalCompTree @ b"
  "js ''original/'' @ a \<noteq> gervillCompTree @ b"
  "renamedTree @ a \<noteq> js ''original/'' @ b" "originalCompTree @ a \<noteq> js ''original/'' @ b"
  "gervillCompTree @ a \<noteq> js ''original/'' @ b"
  by (simp_all add: renamedTree_def originalCompTree_def gervillCompTree_def js_def)

lemma logs_distinct: "js ''saving      '' @ a \<noteq> js ''downloading '' @ b"
  by (simp add: js_def)

text \<open>
  Claim C5: in every run of \<open>fetchDirectory\<close>, over any remote root, in any world, with
  or without copies, and up to any depth, a file whose full remote path \<open>p\<close> (directory,
  \<open>/\<close>, name) is in the exclusion set is never downloaded: \<open>fetchFileAux\<close> sends no
  request for it (and logs no download of it), and no file is written for it in any of the
  four output trees. (The request \<open>getFileListing\<close> sends for a directory is a
  different event: an entry of that path flagged as a directory is walked, not downloaded.)
\<close>

theorem excluded_file_never_downloaded:
  assumes "p \<in> skipclasses w"
  shows "\<exists>new. snd (fetchDirectory n w root makeCopies t) = t @ new \<and>
           Get Download (BASE_URL @ js ''/'' @ p) \<notin> set new \<and>
           Log (js ''downloading '' @ p) \<notin> set new \<and>
           (\<forall>content.
              WriteFile (js ''original/'' @ p) content \<notin> set new \<and>
              WriteFile (renamedTree @ p) content \<notin> set new \<and>
              WriteFile (originalCompTree @ p) content \<notin> set new \<and>
              WriteFile (gervillCompTree @ p) content \<notin> set new)"
proof -
  define P where "P = (\<lambda>ev. ev \<noteq> Get Download (BASE_URL @ js ''/'' @ p) \<and>
      ev \<noteq> Log (js ''downloading '' @ p) \<and>
      (\<forall>content. ev \<noteq> WriteFile (js ''original/'' @ p) content \<and>
         ev \<noteq> WriteFile (renamedTree @ p) content \<and>
         ev \<noteq> WriteFile (originalCompTree @ p) content \<and>
         ev \<noteq> WriteFile (gervillCompTree @ p) content))"
  have "emits P (fetchDirectory n w root makeCopies)"
  proof (rule emits_fetchDirectory)
    show "P (Get Listing url)" for url by (simp add: P_def)
  next
    fix d f ev
    assume "d @ js ''/'' @ f \<notin> skipclasses w" and ev: "ev \<in> fileEvents w d f makeCopies"
    with assms have ne: "d @ js ''/'' @ f \<noteq> p" by auto
    from ev ne show "P ev"
      by (auto simp add: P_def fileEvents_def copyEvents_def trees_distinct logs_distinct
            split: if_splits)
  qed
  from emitsD[OF this, of t] show ?thesis by (auto simp add: P_def)
qed

lemma getFileListing_eval:
  "http_get w t (BASE_URL @ js ''/'' @ path) = Inr doc \<Longrightarrow> parseListing doc = Inr es \<Longrightarrow>
   getFileListing w path t = (Return es, t @ [Get Listing (BASE_URL @ js ''/'' @ path)])"
  by (simp add: getFileListing_unfold)

lemma exclusion_listing:
  "parseListing (js ''-rw-r--r-- 10 Bad.java'' @ [LF] @ js ''-rw-r--r-- 20 Good.java'')
     = Inr [\<lparr>isDirectory = False, name = js ''Bad.java''\<rparr>, \<lparr>isDirectory = False, name = js ''Good.java''\<rparr>]"
  by (simp add: parseListing_def js_eval keepLine_iff match_global_lastToken notWhiteSpace_def
        isDirectoryLine_iff lastToken_def suffix_to_prefix)

lemma other_listing: "parseListing (js ''class Good {}'') = Inr []"
  by (simp add: parseListing_def js_eval keepLine_iff suffix_to_prefix)

lemma exclusion_run:
  "fetchDirectory (Suc 0) exclusionWorld (js ''com/sun/media/sound'') False t =
     (Return (),
      t @ [Get Listing (BASE_URL @ js ''/com/sun/media/sound''),
       Mkdir (js ''original/com/sun/media/sound''),
       Log (js ''downloading com/sun/media/sound/Good.java''),
       Get Download (BASE_URL @ js ''/com/sun/media/sound/Good.java''),
       Log (js ''saving      com/sun/media/sound/Good.java''),
       WriteFile (js ''original/com/sun/media/sound/Good.java'') (js ''class Good {}'')])"
proof -
  have r: "replace_first trailingSlashRegex [] (js ''com/sun/media/sound'') = js ''com/sun/media/sound''"
    by (simp add: replace_first_def exec.simps trailingSlashRegex_def RegExp_def m_eval js_def)
  have g: "http_get exclusionWorld t (BASE_URL @ js ''/'' @ js ''com/sun/media/sound'')
      = Inr (js ''-rw-r--r-- 10 Bad.java'' @ [LF] @ js ''-rw-r--r-- 20 Good.java'')"
    by (simp add: exclusionWorld_def js_def)
  have l: "getFileListing exclusionWorld (js ''com/sun/media/sound'') t =
     (Return [\<lparr>isDirectory = False, name = js ''Bad.java''\<rparr>, \<lparr>isDirectory = False, name = js ''Good.java''\<rparr>],
      t @ [Get Listing (BASE_URL @ js ''/'' @ js ''com/sun/media/sound'')])"
    by (rule getFileListing_eval[OF g exclusion_listing])
  have s: "skipclasses exclusionWorld = {js ''com/sun/media/sound/Bad.java''}"
    by (simp add: exclusionWorld_def)
  have f: "fetchFileAux exclusionWorld (js ''com/sun/media/sound'') (js ''Good.java'') False t' =
     (Return (), t' @ [Mkdir (js ''original/com/sun/media/sound''),
       Log (js ''downloading com/sun/media/sound/Good.java''),
       Get Download (BASE_URL @ js ''/com/sun/media/sound/Good.java''),
       Log (js ''saving      com/sun/media/sound/Good.java''),
       WriteFile (js ''original/com/sun/media/sound/Good.java'') (js ''class Good {}'')])" for t'
    by (simp add: fetchFileAux_def await_def mkdir_def console_log_def getFileContentsAsString_def
          writeFile_def return_def Let_def exclusionWorld_def js_def)
  show ?thesis
    unfolding fetchDirectory_def r fetchDirectoryAux.simps l
    by (simp add: s f) (simp add: js_def)
qed

text \<open>The run over the directory that lists \<open>Bad.java\<close> and \<open>Good.java\<close>.\<close>

theorem excluded_file_never_downloaded_witness:
  "snd (fetchDirectory 1 exclusionWorld (js ''com/sun/media/sound'') False []) =
     [Get Listing (BASE_URL @ js ''/com/sun/media/sound''),
      Mkdir (js ''original/com/sun/media/sound''),
      Log (js ''downloading com/sun/media/sound/Good.java''),
      Get Download (BASE_URL @ js ''/com/sun/media/sound/Good.java''),
      Log (js ''saving      com/sun/media/sound/Good.java''),
      WriteFile (js ''original/com/sun/media/sound/Good.java'') (js ''class Good {}'')] \<and>
   js ''com/sun/media/sound/Bad.java'' \<in> skipclasses exclusionWorld"
  using excluded_file_never_downloaded[of "js ''com/sun/media/sound/Bad.java''" exclusionWorld 1 "js ''com/sun/media/sound''" False "[]"]
    exclusion_run[of "[]"]
  by (simp add: exclusionWorld_def)


lemma original_not_derived:
  "prefix (js ''original/'') path \<Longrightarrow>
   \<not> prefix renamedTree path \<and> \<not> prefix originalCompTree path \<and> \<not> prefix gervillCompTree path"
  by (auto simp add: prefix_def trees_distinct)

text \<open>
  Claim C9: under the flag \<open>-d\<close>, every directory made and every file written by the run
  has a path under \<open>original/\<close>, and none under any of the three derived output
  trees; the three calls of \<open>fetchDirectory\<close> are made with \<open>makeCopies\<close> false, so
  \<open>createFileCopies\<close> is never called. (Paths are compared as the strings the program
  passes to the file system.)
\<close>

theorem download_flag_writes_only_original:
  "\<exists>new. snd (main n w (Some (js ''-d'')) t) = t @ new \<and>
     (\<forall>ev \<in> set new. \<forall>path content.
        ev = Mkdir path \<or> ev = WriteFile path content \<longrightarrow>
        prefix (js ''original/'') path \<and> \<not> prefix renamedTree path \<and>
        \<not> prefix originalCompTree path \<and> \<not> prefix gervillCompTree path)"
proof -
  define P where "P = (\<lambda>ev. \<forall>path content.
        ev = Mkdir path \<or> ev = WriteFile path content \<longrightarrow> prefix (js ''original/'') path)"
  have D: "emits P (fetchDirectory n w root False)" for root
  proof (rule emits_fetchDirectory)
    show "P (Get Listing url)" for url by (simp add: P_def)
  next
    fix d f ev
    assume "ev \<in> fileEvents w d f False"
    then show "P ev" by (auto simp add: P_def fileEvents_def)
  qed
  have "emits P (main n w (Some (js ''-d'')))"
    by (simp add: main_def) (intro emits_await D)
  from emitsD[OF this, of t] obtain new where
    n: "snd (main n w (Some (js ''-d'')) t) = t @ new" "\<forall>ev \<in> set new. P ev" by blast
  from n(2) have "\<forall>ev \<in> set new. \<forall>path content.
        ev = Mkdir path \<or> ev = WriteFile path content \<longrightarrow>
        prefix (js ''original/'') path \<and> \<not> prefix renamedTree path \<and>
        \<not> prefix originalCompTree path \<and> \<not> prefix gervillCompTree path"
    unfolding P_def using original_not_derived by blast
  with n(1) show ?thesis by blast
qed

lemma other_run:
  "root \<noteq> js ''com/sun/media/sound'' \<Longrightarrow> replace_first trailingSlashRegex [] root = root \<Longrightarrow>
   fetchDirectory (Suc 0) exclusionWorld root False t = (Return (), t @ [Get Listing (BASE_URL @ js ''/'' @ root)])"
proof -
  assume ne: "root \<noteq> js ''com/sun/media/sound''" and r: "replace_first trailingSlashRegex [] root = root"
  have g: "http_get exclusionWorld t (BASE_URL @ js ''/'' @ root) = Inr (js ''class Good {}'')"
    using ne by (simp add: exclusionWorld_def js_def)
  have l: "getFileListing exclusionWorld root t = (Return [], t @ [Get Listing (BASE_URL @ js ''/'' @ root)])"
    by (rule getFileListing_eval[OF g other_listing])
  show ?thesis
    unfolding fetchDirectory_def r fetchDirectoryAux.simps l by simp
qed

lemma no_trailing_slash:
  "replace_first trailingSlashRegex [] (js ''javax/sound/midi'') = js ''javax/sound/midi''"
  "replace_first trailingSlashRegex [] (js ''javax/sound/sampled'') = js ''javax/sound/sampled''"
  by (simp_all add: replace_first_def exec.simps trailingSlashRegex_def RegExp_def m_eval js_def)

text \<open>The run with the flag \<open>-d\<close> in the world above.\<close>

theorem download_flag_writes_only_original_witness:
  "main 1 exclusionWorld (Some (js ''-d'')) [] =
     (Return (),
      [Get Listing (BASE_URL @ js ''/javax/sound/midi''),
       Get Listing (BASE_URL @ js ''/javax/sound/sampled''),
       Get Listing (BASE_URL @ js ''/com/sun/media/sound''),
       Mkdir (js ''original/com/sun/media/sound''),
       Log (js ''downloading com/sun/media/sound/Good.java''),
       Get Download (BASE_URL @ js ''/com/sun/media/sound/Good.java''),
       Log (js ''saving      com/sun/media/sound/Good.java''),
       WriteFile (js ''original/com/sun/media/sound/Good.java'') (js ''class Good {}'')])"
proof -
  have a: "fetchDirectory (Suc 0) exclusionWorld (js ''javax/sound/midi'') False t
      = (Return (), t @ [Get Listing (BASE_URL @ js ''/javax/sound/midi'')])" for t
    using other_run[of "js ''javax/sound/midi''" t] no_trailing_slash by (simp add: js_def)
  have b: "fetchDirectory (Suc 0) exclusionWorld (js ''javax/sound/sampled'') False t
      = (Return (), t @ [Get Listing (BASE_URL @ js ''/javax/sound/sampled'')])" for t
    using other_run[of "js ''javax/sound/sampled''" t] no_trailing_slash by (simp add: js_def)
  show ?thesis
    using download_flag_writes_only_original[of 1 exclusionWorld "[]"]
    by (simp add: main_def await_def a b exclusion_run)
qed

lemma pathSplitRegex_eq:
  "pathSplitRegex =
     Seq (Lit (js ''/''))
       (Ahead (Seq (Seq (Cls isWordChar) (Star (Cls isWordChar))) (Seq (Cls isDot) (Lit (js ''java'')))))"
  by (simp add: pathSplitRegex_def RegExp_def Plus_def)

lemma split_swing:
  "split_regex pathSplitRegex (js ''com/sun/java/swing/SwingUtilities3.java'')
     = [js ''com'', js ''sun/java/swing'', js ''SwingUtilities3.java'']"
  by (simp add: split_regex_def pathSplitRegex_eq m_eval js_def isWordChar_def isDot_def)

lemma split_midi:
  "split_regex pathSplitRegex (js ''javax/sound/midi/MidiSystem.java'')
     = [js ''javax/sound/midi'', js ''MidiSystem.java'']"
  by (simp add: split_regex_def pathSplitRegex_eq m_eval js_def isWordChar_def isDot_def)

lemma split_package_info:
  "split_regex pathSplitRegex (js ''javax/sound/midi/package-info.java'')
     = [js ''javax/sound/midi/package-info.java'']"
  by (simp add: split_regex_def pathSplitRegex_eq m_eval js_def isWordChar_def isDot_def)

text \<open>
  Claim C7 at the path \<open>com/sun/java/swing/SwingUtilities3.java\<close>: the separator pattern
  of \<open>fetchFile\<close> also matches the slash before \<open>sun/java\<close> (its dot matches the
  slash), the path is split in three and \<open>fetchFile\<close> takes the first two pieces. It
  downloads \<open>com/sun/java/swing\<close> and writes it to \<open>original/com/sun/java/swing\<close>,
  where the per-file branch of the directory walk, called with the directory
  \<open>com/sun/java/swing\<close> and the name \<open>SwingUtilities3.java\<close>, downloads the file and
  writes it to \<open>original/com/sun/java/swing/SwingUtilities3.java\<close>.
\<close>

theorem fetchFile_splits_at_first_match:
  "fetchFile w (js ''com/sun/java/swing/SwingUtilities3.java'') makeCopies
     = fetchFileAux w (js ''com'') (js ''sun/java/swing'') makeCopies \<and>
   snd (fetchFile (listingWorld (js ''class SwingUtilities3 {}''))
          (js ''com/sun/java/swing/SwingUtilities3.java'') False [])
     = [Mkdir (js ''original/com''),
        Log (js ''downloading com/sun/java/swing''),
        Get Download (BASE_URL @ js ''/com/sun/java/swing''),
        Log (js ''saving      com/sun/java/swing''),
        WriteFile (js ''original/com/sun/java/swing'') (js ''class SwingUtilities3 {}'')] \<and>
   snd (fetchFileAux (listingWorld (js ''class SwingUtilities3 {}''))
          (js ''com/sun/java/swing'') (js ''SwingUtilities3.java'') False [])
     = [Mkdir (js ''original/com/sun/java/swing''),
        Log (js ''downloading com/sun/java/swing/SwingUtilities3.java''),
        Get Download (BASE_URL @ js ''/com/sun/java/swing/SwingUtilities3.java''),
        Log (js ''saving      com/sun/java/swing/SwingUtilities3.java''),
        WriteFile (js ''original/com/sun/java/swing/SwingUtilities3.java'')
          (js ''class SwingUtilities3 {}'')]"
proof -
  have a: "fetchFile v (js ''com/sun/java/swing/SwingUtilities3.java'') mk
     = fetchFileAux v (js ''com'') (js ''sun/java/swing'') mk" for v mk
    by (simp add: fetchFile_def split_swing element_def toString_def)
  have b: "snd (fetchFileAux (listingWorld c) d f False []) =
     [Mkdir (js ''original/'' @ d), Log (js ''downloading '' @ d @ js ''/'' @ f),
      Get Download (BASE_URL @ js ''/'' @ d @ js ''/'' @ f),
      Log (js ''saving      '' @ d @ js ''/'' @ f),
      WriteFile (js ''original/'' @ d @ js ''/'' @ f) c]" for c d f
    by (simp add: fetchFileAux_def await_def mkdir_def console_log_def getFileContentsAsString_def
          writeFile_def return_def Let_def listingWorld_def)
  show ?thesis
    unfolding a b by (simp add: js_def)
qed


section \<open>The copy orchestrator\<close>


















section \<open>The package pass\<close>

lemma prefix_take: "prefix w s \<Longrightarrow> take (length w) s = w"
  by (auto simp add: prefix_def)

lemma prefix_append_drop:
  "prefix (a @ b) s \<longleftrightarrow> prefix a s \<and> prefix b (drop (length a) s)"
  by (auto simp add: prefix_def)

lemma m_Seq_Grp:
  "m (Seq (Grp n a) r) (i, s, c) =
     concat (map (\<lambda>(i', s', c'). m r (i', s', (n, take (i' - i) s) # filter (\<lambda>(k, _). k \<noteq> n) c'))
                 (m a (i, s, c)))"
  by (simp add: m.simps(3,6) map_concat comp_def case_prod_unfold)

lemma m_Seq_Backref:
  "m (Seq (Backref n) r) (i, s, c) =
     (case map_of c n of
        None \<Rightarrow> m r (i, s, c)
      | Some w \<Rightarrow> if prefix w s then m r (i + length w, drop (length w) s, c) else [])"
  by (simp add: m.simps(3,7) split: option.splits)

lemma m_alternatives_Lit:
  "seps \<noteq> [] \<Longrightarrow>
   m (alternatives (map Lit seps)) (i, s, c) =
     concat (map (\<lambda>sep. if prefix sep s then [(i + length sep, drop (length sep) s, c)] else []) seps)"
proof (induction seps rule: list_nonempty_induct)
  case (single x)
  then show ?case by (simp add: m.simps)
next
  case (cons x xs)
  then obtain y ys where "xs = y # ys" by (cases xs) auto
  with cons show ?case by (simp add: m.simps)
qed

lemma m_Seq_Grp_seps:
  assumes "seps \<noteq> []"
  shows "m (Seq (Grp n (alternatives (map Lit seps))) r) (i, s, []) =
     concat (map (\<lambda>sep. if prefix sep s then m r (i + length sep, drop (length sep) s, [(n, sep)]) else [])
                 seps)"
proof -
  have "concat (map (\<lambda>(i', s', c'). m r (i', s', (n, take (i' - i) s) # filter (\<lambda>(k, _). k \<noteq> n) c'))
          (concat (map (\<lambda>sep. if prefix sep s then [(i + length sep, drop (length sep) s, [])] else []) xs)))
      = concat (map (\<lambda>sep. if prefix sep s then m r (i + length sep, drop (length sep) s, [(n, sep)]) else []) xs)"
    for xs
    by (induction xs) (simp_all add: prefix_take)
  then show ?thesis
    by (simp add: m_Seq_Grp m_alternatives_Lit[OF assms])
qed

lemma m_join_regex:
  "m (join_regex (Backref n) parts) (i, s, [(n, sep)]) =
     (if prefix (joinWith sep parts) s
      then [(i + length (joinWith sep parts), drop (length (joinWith sep parts)) s, [(n, sep)])]
      else [])"
proof (induction parts arbitrary: i s)
  case Nil
  show ?case by (simp add: m.simps)
next
  case (Cons p ps)
  show ?case
  proof (cases ps)
    case Nil
    then show ?thesis by (simp add: m.simps)
  next
    case (Cons q qs)
    then show ?thesis
      using Cons.IH by (simp add: m_Seq_Lit m_Seq_Backref prefix_append_drop ac_simps)
  qed
qed

lemma m_packageRegex:
  assumes "tl parts \<noteq> []"
  shows "m (packageRegex n parts) (i, s, []) =
     concat (map (\<lambda>sep. if prefix (joinWith sep parts) s
                         then [(i + length (joinWith sep parts),
                                drop (length (joinWith sep parts)) s, [(n, sep)])]
                         else [])
                 separators)"
proof -
  from assms obtain p q qs where parts: "parts = p # q # qs"
    by (cases parts; cases "tl parts") auto
  have sn: "separators \<noteq> []" by (simp add: separators_def)
  show ?thesis
  proof (cases "prefix p s")
    case True
    have "(\<lambda>sep. if prefix sep (drop (length p) s)
                 then m (join_regex (Backref n) (q # qs))
                        (i + length p + length sep, drop (length sep) (drop (length p) s), [(n, sep)])
                 else [])
        = (\<lambda>sep. if prefix (p @ sep @ joinWith sep (q # qs)) s
                         then [(i + length (p @ sep @ joinWith sep (q # qs)),
                                drop (length (p @ sep @ joinWith sep (q # qs))) s, [(n, sep)])]
                         else [])"
      by (rule ext) (simp add: True m_join_regex prefix_append_drop ac_simps)
    then show ?thesis
      unfolding parts joinWith.simps
      using True by (simp add: packageRegex_def m_Seq_Lit m_Seq_Grp_seps[OF sn])
  next
    case False
    then show ?thesis
      unfolding parts joinWith.simps
      by (simp add: packageRegex_def m_Seq_Lit prefix_append_drop)
  qed
qed

lemma gervillRegex_packages:
  "gervillRegex =
     Alt (packageRegex 1 [js ''javax'', js ''sound''])
         (packageRegex 2 [js ''com'', js ''sun'', js ''media'', js ''sound''])"
  by (simp add: gervillRegex_eq packageRegex_def separators_def)

declare scanWith.simps [simp del]

lemma concat_forms:
  "concat (map (\<lambda>(f, c). if prefix f s then [(i + length f, drop (length f) s, c)] else [])
               (map (\<lambda>sep. (joinWith sep parts, [(n, sep)])) seps))
   = concat (map (\<lambda>sep. if prefix (joinWith sep parts) s
                         then [(i + length (joinWith sep parts),
                                drop (length (joinWith sep parts)) s, [(n, sep)])]
                         else []) seps)"
  by (induction seps) simp_all

lemma m_gervillRegex:
  "m gervillRegex (i, s, []) =
     concat (map (\<lambda>(f, c). if prefix f s then [(i + length f, drop (length f) s, c)] else [])
                 gervillForms)"
  unfolding gervillForms_def map_append concat_append concat_forms
  by (simp add: gervillRegex_packages m.simps(4) m_packageRegex cong: if_cong)

lemma case_concat_find:
  "(case concat (map (\<lambda>(f, c). if P f c then [g f c] else []) xs) of [] \<Rightarrow> a | y # _ \<Rightarrow> b y)
     = (case find (\<lambda>(f, c). P f c) xs of None \<Rightarrow> a | Some (f, c) \<Rightarrow> b (g f c))"
  by (induction xs) (auto split: prod.splits)

lemma gervillForms_explicit:
  "gervillForms =
     [(js ''javax.sound'', [(1, js ''.'')]), (js ''javax/sound'', [(1, js ''/'')]),
      (js ''javax'' @ [BACKSLASH] @ js ''sound'', [(1, [BACKSLASH])]),
      (js ''javax'' @ [BACKSLASH, BACKSLASH] @ js ''sound'', [(1, [BACKSLASH, BACKSLASH])]),
      (js ''com.sun.media.sound'', [(2, js ''.'')]), (js ''com/sun/media/sound'', [(2, js ''/'')]),
      (js ''com'' @ [BACKSLASH] @ js ''sun'' @ [BACKSLASH] @ js ''media'' @ [BACKSLASH] @ js ''sound'',
       [(2, [BACKSLASH])]),
      (js ''com'' @ [BACKSLASH, BACKSLASH] @ js ''sun'' @ [BACKSLASH, BACKSLASH] @ js ''media'' @
       [BACKSLASH, BACKSLASH] @ js ''sound'', [(2, [BACKSLASH, BACKSLASH])])]"
  by (simp add: gervillForms_def separators_def js_def)

lemma gervillForms_sound:
  "(f, c) \<in> set gervillForms \<Longrightarrow>
   f \<noteq> [] \<and> (\<exists>sep. gervillReplacer f c = js ''gervill'' @ sep @ f \<and>
                      (c = [(1, sep)] \<or> c = [(2, sep)]) \<and> sep \<in> set separators)"
  by (auto simp add: gervillForms_explicit separators_def gervillReplacer_def packages_def
        toString_def js_def BACKSLASH_def)

lemma find_form:
  "find (\<lambda>(f, c). prefix f s) gervillForms = Some (f, c) \<Longrightarrow>
   (f, c) \<in> set gervillForms \<and> prefix f s"
  by (auto simp add: find_Some_iff in_set_conv_nth)

lemma replace_scan_gervill:
  "replace_scan gervillRegex gervillReplacer i s = scanWith gervillMatch s"
proof (induction s arbitrary: i rule: length_induct)
  case (1 s)
  note IH = 1[rule_format]
  show ?case
  proof (cases "find (\<lambda>(f, c). prefix f s) gervillForms")
    case None
    then have g: "gervillMatch s = None" by (simp add: gervillMatch_def)
    have "replace_scan gervillRegex gervillReplacer i s =
        (case s of [] \<Rightarrow> [] | x # s' \<Rightarrow> x # replace_scan gervillRegex gervillReplacer (Suc i) s')"
      by (subst replace_scan.simps) (simp only: m_gervillRegex case_concat_find None option.case)
    also have "\<dots> = (case s of [] \<Rightarrow> [] | x # s' \<Rightarrow> x # scanWith gervillMatch s')"
      by (cases s) (simp_all add: IH)
    also have "\<dots> = scanWith gervillMatch s"
      by (subst scanWith.simps[of _ s]) (simp add: g)
    finally show ?thesis .
  next
    case (Some fc)
    obtain f c where fc: "fc = (f, c)" by (cases fc)
    from find_form[OF Some[unfolded fc]] gervillForms_sound[of f c]
    have f: "f \<noteq> []" "prefix f s" by auto
    then have len: "0 < length f" "length f \<le> length s" "length (drop (length f) s) < length s"
      by (auto simp add: prefix_def)
    have g: "gervillMatch s = Some (length f, gervillReplacer f c)"
      by (simp add: gervillMatch_def Some fc)
    have "replace_scan gervillRegex gervillReplacer i s =
        gervillReplacer (take (i + length f - i) s) c @
          (if length (drop (length f) s) < length s
           then replace_scan gervillRegex gervillReplacer (i + length f) (drop (length f) s)
           else (case s of [] \<Rightarrow> [] | x # s'' \<Rightarrow> x # replace_scan gervillRegex gervillReplacer (Suc i) s''))"
      by (subst replace_scan.simps)
         (simp only: m_gervillRegex case_concat_find Some fc option.case prod.case)
    also have "\<dots> = gervillReplacer f c @ scanWith gervillMatch (drop (length f) s)"
      using len f by (simp add: IH prefix_take)
    also have "\<dots> = scanWith gervillMatch s"
      using len by (subst scanWith.simps[of _ s]) (simp add: g)
    finally show ?thesis .
  qed
qed

lemma scanWith_Some:
  "M s = Some (n, rep) \<Longrightarrow> 0 < n \<Longrightarrow> n \<le> length s \<Longrightarrow>
   scanWith M s = rep @ scanWith M (drop n s)"
  by (subst scanWith.simps) simp

lemma scanWith_None: "M (x # s) = None \<Longrightarrow> scanWith M (x # s) = x # scanWith M s"
  by (subst scanWith.simps) simp

lemma scanWith_Nil: "scanWith M [] = []"
  by (subst scanWith.simps) (auto split: option.splits)

lemma scanWith_append:
  assumes sound: "\<And>s n rep. M s = Some (n, rep) \<Longrightarrow> 0 < n \<and> n \<le> length s"
    and local: "\<And>p1. p1 \<noteq> [] \<Longrightarrow> suffix p1 pre \<Longrightarrow> M (p1 @ rest) = M p1"
  shows "scanWith M (pre @ rest) = scanWith M pre @ scanWith M rest"
  using local
proof (induction pre rule: length_induct)
  case (1 pre)
  note IH = 1(1)[rule_format]
  note loc = 1(2)
  show ?case
  proof (cases pre)
    case Nil
    then show ?thesis by (simp add: scanWith_Nil)
  next
    case (Cons x p')
    have m: "M (pre @ rest) = M pre" using loc[of pre] Cons by simp
    show ?thesis
    proof (cases "M pre")
      case None
      have "scanWith M (p' @ rest) = scanWith M p' @ scanWith M rest"
      proof (rule IH)
        show "length p' < length pre" using Cons by simp
        fix p1 assume "p1 \<noteq> []" "suffix p1 p'"
        then show "M (p1 @ rest) = M p1" using loc[of p1] Cons by (simp add: suffix_Cons)
      qed
      then show ?thesis using None m Cons by (simp add: scanWith_None)
    next
      case (Some a)
      obtain n rep where a: "a = (n, rep)" by (cases a)
      from sound[OF Some[unfolded a]] have n: "0 < n" "n \<le> length pre" by auto
      have "scanWith M (drop n pre @ rest) = scanWith M (drop n pre) @ scanWith M rest"
      proof (rule IH)
        show "length (drop n pre) < length pre" using n Cons by simp
        fix p1 assume "p1 \<noteq> []" "suffix p1 (drop n pre)"
        then show "M (p1 @ rest) = M p1"
          using loc[of p1] by (meson suffix_drop suffix_order.trans)
      qed
      moreover have "scanWith M (pre @ rest) = rep @ scanWith M (drop n pre @ rest)"
        using scanWith_Some[of M "pre @ rest" n rep] m Some a n by simp
      moreover have "scanWith M pre = rep @ scanWith M (drop n pre)"
        using scanWith_Some[of M pre n rep] Some a n by simp
      ultimately show ?thesis by simp
    qed
  qed
qed

lemma prefix_overlap:
  assumes "prefix f (p @ x # r)" and "p \<noteq> []" and "x \<notin> set (tl f)"
  shows "prefix f p"
proof (cases "length f \<le> length p")
  case True
  with assms(1) show ?thesis by (metis prefix_length_prefix prefixI)
next
  case False
  from assms(1) obtain zs where z: "p @ x # r = f @ zs" by (auto simp add: prefix_def)
  from False have "length p < length f" by simp
  with z have "f ! length p = x"
    by (metis nth_append nth_append_length)
  moreover from assms(2) obtain k where "length p = Suc k" by (cases p) auto
  ultimately have "x \<in> set (tl f)"
    using \<open>length p < length f\<close>
    by (metis Suc_less_eq length_Cons list.exhaust_sel list.size(3) not_less_zero nth_Cons_Suc nth_mem)
  with assms(3) show ?thesis by simp
qed

lemma renamePackages_scan: "renamePackages s = scanWith gervillMatch s"
  by (simp add: renamePackages_def replace_global_def replace_scan_gervill)

lemma gervillMatch_sound: "gervillMatch s = Some (n, rep) \<Longrightarrow> 0 < n \<and> n \<le> length s"
proof -
  assume a: "gervillMatch s = Some (n, rep)"
  then obtain f c where fc: "find (\<lambda>(f, c). prefix f s) gervillForms = Some (f, c)" "n = length f"
    by (auto simp add: gervillMatch_def split: option.splits)
  from find_form[OF fc(1)] gervillForms_sound[of f c] have "f \<noteq> []" "prefix f s" by auto
  with fc(2) show ?thesis by (auto simp add: prefix_def)
qed

lemma gervillForms_tail:
  "(f, c) \<in> set gervillForms \<Longrightarrow> of_char CHR ''j'' \<notin> set (tl f) \<and> of_char CHR ''c'' \<notin> set (tl f)"
  by (auto simp add: gervillForms_explicit js_def BACKSLASH_def)

lemma gervillMatch_local:
  assumes "p1 \<noteq> []" and "x = of_char CHR ''j'' \<or> x = of_char CHR ''c''"
  shows "gervillMatch (p1 @ x # r) = gervillMatch p1"
proof -
  have eq: "prefix f (p1 @ x # r) \<longleftrightarrow> prefix f p1" if "(f, c) \<in> set gervillForms" for f c
  proof
    assume a: "prefix f (p1 @ x # r)"
    from gervillForms_tail[OF that] have "of_char CHR ''j'' \<notin> set (tl f)" "of_char CHR ''c'' \<notin> set (tl f)"
      by blast+
    with assms(2) have "x \<notin> set (tl f)" by blast
    with a assms(1) show "prefix f p1" by (rule prefix_overlap)
  next
    assume "prefix f p1" then show "prefix f (p1 @ x # r)" by (rule prefix_prefix)
  qed
  have "find (\<lambda>(f, c). prefix f (p1 @ x # r)) gervillForms = find (\<lambda>(f, c). prefix f p1) gervillForms"
  proof (rule find_cong[OF refl])
    fix fc assume m: "fc \<in> set gervillForms"
    obtain f c where fc: "fc = (f, c)" by (cases fc)
    from eq[of f c] m show "(case fc of (f, c) \<Rightarrow> prefix f (p1 @ x # r)) = (case fc of (f, c) \<Rightarrow> prefix f p1)"
      unfolding fc by simp
  qed
  then show ?thesis by (simp only: gervillMatch_def)
qed

lemma split_packages:
  "split_on DOT (js ''javax.sound'') = [js ''javax'', js ''sound'']"
  "split_on DOT (js ''com.sun.media.sound'') = [js ''com'', js ''sun'', js ''media'', js ''sound'']"
  by (simp_all add: split_on_def js_def DOT_def)

lemma gervillMatch_form:
  assumes "f = js ''javax'' @ sep @ js ''sound'' \<or>
           f = js ''com'' @ sep @ js ''sun'' @ sep @ js ''media'' @ sep @ js ''sound''"
    and "sep \<in> set separators"
  shows "gervillMatch (f @ post) = Some (length f, js ''gervill'' @ sep @ f) \<and>
         (\<exists>x r. f = x # r \<and> (x = of_char CHR ''j'' \<or> x = of_char CHR ''c''))"
proof -
  from assms(2) consider "sep = js ''.''" | "sep = js ''/''" | "sep = [BACKSLASH]"
    | "sep = [BACKSLASH, BACKSLASH]"
    by (auto simp add: separators_def)
  then show ?thesis
  proof cases
    case 1
    with assms(1) show ?thesis
      by (elim disjE)
         (simp_all add: gervillMatch_def gervillForms_explicit gervillReplacer_def packages_def
            toString_def js_def BACKSLASH_def)
  next
    case 2
    with assms(1) show ?thesis
      by (elim disjE)
         (simp_all add: gervillMatch_def gervillForms_explicit gervillReplacer_def packages_def
            toString_def js_def BACKSLASH_def)
  next
    case 3
    with assms(1) show ?thesis
      by (elim disjE)
         (simp_all add: gervillMatch_def gervillForms_explicit gervillReplacer_def packages_def
            toString_def js_def BACKSLASH_def)
  next
    case 4
    with assms(1) show ?thesis
      by (elim disjE)
         (simp_all add: gervillMatch_def gervillForms_explicit gervillReplacer_def packages_def
            toString_def js_def BACKSLASH_def)
  qed
qed

lemma occurrence_cases:
  assumes "pkg \<in> set packages"
  shows "joinWith sep (split_on DOT pkg) = js ''javax'' @ sep @ js ''sound'' \<or>
         joinWith sep (split_on DOT pkg) =
           js ''com'' @ sep @ js ''sun'' @ sep @ js ''media'' @ sep @ js ''sound''"
  using assms by (auto simp add: packages_def split_packages)

lemma renamePackages_occurrence:
  assumes "pkg \<in> set packages" and "sep \<in> set separators"
  shows "renamePackages (pre @ joinWith sep (split_on DOT pkg) @ post) =
           renamePackages pre @ js ''gervill'' @ sep @ joinWith sep (split_on DOT pkg) @
           renamePackages post"
proof -
  let ?occ = "joinWith sep (split_on DOT pkg)"
  from gervillMatch_form[OF occurrence_cases[OF assms(1)] assms(2), of post]
  obtain x r where g: "gervillMatch (?occ @ post) = Some (length ?occ, js ''gervill'' @ sep @ ?occ)"
    and xr: "?occ = x # r" "x = of_char CHR ''j'' \<or> x = of_char CHR ''c''" by blast
  have "scanWith gervillMatch (pre @ (?occ @ post)) =
        scanWith gervillMatch pre @ scanWith gervillMatch (?occ @ post)"
  proof (rule scanWith_append)
    show "\<And>s n rep. gervillMatch s = Some (n, rep) \<Longrightarrow> 0 < n \<and> n \<le> length s"
      by (rule gervillMatch_sound)
    fix p1 :: jsstring assume "p1 \<noteq> []"
    then show "gervillMatch (p1 @ ?occ @ post) = gervillMatch p1"
      using gervillMatch_local[of p1 x "r @ post"] xr by simp
  qed
  moreover have "scanWith gervillMatch (?occ @ post) =
      (js ''gervill'' @ sep @ ?occ) @ scanWith gervillMatch (drop (length ?occ) (?occ @ post))"
    using xr(1) by (intro scanWith_Some g) simp_all
  ultimately show ?thesis by (simp add: renamePackages_scan)
qed


section \<open>The doc-tag pass\<close>

lemma concat_map_star_cls:
  assumes "\<forall>k < length (takeWhile p t). K (j + k, drop k t, c) = []"
  shows "concat (map K (m (Star (Cls p)) (j, t, c))) = K (j + length (takeWhile p t), drop (length (takeWhile p t)) t, c)"
  using assms
proof (induction t arbitrary: j)
  case Nil
  show ?case by (simp add: m_star_cls_Nil)
next
  case (Cons y ys)
  show ?case
  proof (cases "p y")
    case True
    have "\<forall>k < length (takeWhile p ys). K (Suc j + k, drop k ys, c) = []"
    proof (intro allI impI)
      fix k assume "k < length (takeWhile p ys)"
      then have "Suc k < length (takeWhile p (y # ys))" using True by simp
      from Cons.prems[rule_format, OF this] show "K (Suc j + k, drop k ys, c) = []" by simp
    qed
    from Cons.IH[OF this] have "concat (map K (m (Star (Cls p)) (Suc j, ys, c)))
        = K (Suc j + length (takeWhile p ys), drop (length (takeWhile p ys)) ys, c)" .
    moreover have "K (j, y # ys, c) = []"
      using Cons.prems[rule_format, of 0] True by simp
    ultimately show ?thesis using True by (simp add: m_star_cls_Cons)
  next
    case False
    then show ?thesis by (simp add: m_star_cls_Cons)
  qed
qed

lemma m_plus_group_lit:
  assumes "\<not> p x"
  shows "m (Seq (Grp g (Seq (Cls p) (Star (Cls p)))) (Lit [x])) (i, s, []) =
     (if takeWhile p s \<noteq> [] \<and> prefix [x] (drop (length (takeWhile p s)) s)
      then [(i + length (takeWhile p s) + 1, drop (length (takeWhile p s) + 1) s, [(g, takeWhile p s)])]
      else [])"
proof (cases s)
  case Nil
  then show ?thesis by (simp add: m_Seq_Grp m_Seq_Cls)
next
  case (Cons y ys)
  define K where "K = (\<lambda>(i', s', c'). m (Lit [x]) (i', s', (g, take (i' - i) s) # filter (\<lambda>(k, _). k \<noteq> g) c'))"
  show ?thesis
  proof (cases "p y")
    case False
    then show ?thesis using Cons by (simp add: m_Seq_Grp m_Seq_Cls)
  next
    case True
    have fail: "\<forall>k < length (takeWhile p ys). K (Suc i + k, drop k ys, []) = []"
    proof (intro allI impI)
      fix k assume k: "k < length (takeWhile p ys)"
      then have "k < length ys" by (meson length_takeWhile_le less_le_trans)
      then have d: "drop k ys = ys ! k # drop (Suc k) ys" by (simp add: Cons_nth_drop_Suc)
      from k have "p (ys ! k)"
        by (metis nth_mem set_takeWhileD takeWhile_nth)
      with assms have "ys ! k \<noteq> x" by auto
      then show "K (Suc i + k, drop k ys, []) = []" by (simp add: K_def m.simps(1) d)
    qed
    have "m (Seq (Grp g (Seq (Cls p) (Star (Cls p)))) (Lit [x])) (i, s, [])
        = concat (map K (m (Star (Cls p)) (Suc i, ys, [])))"
      using Cons True by (simp add: m_Seq_Grp m_Seq_Cls K_def)
    also have "\<dots> = K (Suc i + length (takeWhile p ys), drop (length (takeWhile p ys)) ys, [])"
      by (rule concat_map_star_cls[OF fail])
    also have "\<dots> = (if takeWhile p s \<noteq> [] \<and> prefix [x] (drop (length (takeWhile p s)) s)
      then [(i + length (takeWhile p s) + 1, drop (length (takeWhile p s) + 1) s, [(g, takeWhile p s)])]
      else [])"
    proof -
      have "take (Suc (length (takeWhile p ys))) (y # ys) = y # takeWhile p ys"
        by (simp add: takeWhile_eq_take[symmetric])
      then show ?thesis using Cons True by (simp add: K_def m.simps(1))
    qed
    finally show ?thesis .
  qed
qed

lemma m_link:
  "m (Seq (Lit (js ''{@link'')) (Seq (Grp (Suc 0) (Seq (Cls notBrace) (Star (Cls notBrace)))) (Lit (js ''}''))))
     (i, s, []) =
     (if prefix (js ''{@link'') s \<and> linkInner s \<noteq> [] \<and>
         prefix (js ''}'') (drop (6 + length (linkInner s)) s)
      then [(i + (7 + length (linkInner s)), drop (7 + length (linkInner s)) s, [(Suc 0, linkInner s)])]
      else [])"
proof -
  have b: "js ''}'' = [0x7D]" by (simp add: js_def)
  have nb: "\<not> notBrace 0x7D" by (simp add: notBrace_def)
  have l: "length (js ''{@link'') = 6" by (simp add: js_def)
  show ?thesis
    unfolding b
    by (simp add: m_Seq_Lit m_plus_group_lit[of notBrace "0x7D", OF nb] l linkInner_def ac_simps)
qed

lemma m_tags:
  "m (Seq (Lit (js ''@'')) (Grp 2 (Alt (Lit (js ''throws'')) (Lit (js ''see''))))) (i, s, []) =
     (if prefix (js ''@throws'') s then [(i + 7, drop 7 s, [(2, js ''throws'')])]
      else if prefix (js ''@see'') s then [(i + 4, drop 4 s, [(2, js ''see'')])]
      else [])"
proof -
  have a: "js ''@throws'' = js ''@'' @ js ''throws''" "js ''@see'' = js ''@'' @ js ''see''"
    by (simp_all add: js_def)
  have l: "length (js ''@'') = 1" "length (js ''throws'') = 6" "length (js ''see'') = 3"
    by (simp_all add: js_def)
  have ex: "prefix (js ''throws'') t \<Longrightarrow> \<not> prefix (js ''see'') t" for t
    by (cases t) (simp_all add: js_def)
  have t: "prefix (js ''throws'') t \<Longrightarrow> take 6 t = js ''throws''"
    "prefix (js ''see'') t \<Longrightarrow> take 3 t = js ''see''" for t
    using prefix_take[of "js ''throws''" t] prefix_take[of "js ''see''" t] l by simp_all
  show ?thesis
    unfolding a
    by (auto simp add: m.simps prefix_append_drop l t ex)
qed

lemma link_not_tag:
  "prefix (js ''{@link'') s \<Longrightarrow> \<not> prefix (js ''@throws'') s \<and> \<not> prefix (js ''@see'') s"
  by (cases s) (simp_all add: js_def)

lemma m_finalCommentsLinkRegex:
  "m finalCommentsLinkRegex (i, s, []) =
     (case docMatch s of
        None \<Rightarrow> []
      | Some (n, rep) \<Rightarrow>
          [(i + n, drop n s, [(if prefix (js ''{@link'') s then 1 else 2, rep)])])"
  using link_not_tag[of s]
  by (auto simp add: finalCommentsLinkRegex_eq m.simps(4) m_link m_tags docMatch_def)

lemma docMatch_sound: "docMatch s = Some (n, rep) \<Longrightarrow> 0 < n \<and> n \<le> length s"
proof -
  have l: "length (js ''{@link'') = 6" "length (js ''@throws'') = 7" "length (js ''@see'') = 4"
    "length (js ''}'') = 1"
    by (simp_all add: js_def)
  have p: "prefix w t \<Longrightarrow> length w \<le> length t" for w t :: jsstring
    by (rule prefix_length_le)
  assume "docMatch s = Some (n, rep)"
  then show ?thesis
    using p[of "js ''@throws''" s] p[of "js ''@see''" s]
      p[of "js ''}''" "drop (6 + length (linkInner s)) s"]
    by (auto simp add: docMatch_def l split: if_splits)
qed

lemma linkReplacer_eval:
  "linkReplacer w [(Suc 0, rep)] = rep" "linkReplacer w [(2, rep)] = rep"
  by (simp_all add: linkReplacer_def coalesce_def toString_def)

lemma replace_scan_doc:
  "replace_scan finalCommentsLinkRegex linkReplacer i s = scanWith docMatch s"
proof (induction s arbitrary: i rule: length_induct)
  case (1 s)
  note IH = 1[rule_format]
  show ?case
  proof (cases "docMatch s")
    case None
    have "replace_scan finalCommentsLinkRegex linkReplacer i s =
        (case s of [] \<Rightarrow> [] | x # s' \<Rightarrow> x # replace_scan finalCommentsLinkRegex linkReplacer (Suc i) s')"
      by (subst replace_scan.simps) (simp add: m_finalCommentsLinkRegex None)
    also have "\<dots> = (case s of [] \<Rightarrow> [] | x # s' \<Rightarrow> x # scanWith docMatch s')"
      by (cases s) (simp_all add: IH)
    also have "\<dots> = scanWith docMatch s"
      by (subst scanWith.simps[of _ s]) (simp add: None)
    finally show ?thesis .
  next
    case (Some a)
    obtain n rep where a: "a = (n, rep)" by (cases a)
    from docMatch_sound[OF Some[unfolded a]] have n: "0 < n" "n \<le> length s" by auto
    then have len: "length (drop n s) < length s" by simp
    have "replace_scan finalCommentsLinkRegex linkReplacer i s =
        rep @ replace_scan finalCommentsLinkRegex linkReplacer (i + n) (drop n s)"
      using len
      by (subst replace_scan.simps) (simp add: m_finalCommentsLinkRegex Some a linkReplacer_eval)
    also have "\<dots> = rep @ scanWith docMatch (drop n s)"
      using len by (simp add: IH)
    also have "\<dots> = scanWith docMatch s"
      using n by (subst scanWith.simps[of _ s]) (simp add: Some a)
    finally show ?thesis .
  qed
qed

lemma replaceDocTags_scan: "replaceDocTags s = scanWith docMatch s"
  by (simp add: replaceDocTags_def replace_global_def replace_scan_doc)

lemma link_length: "length (js ''{@link'') = 6"
  by (simp add: js_def)

lemma prefix_single_append: "ys \<noteq> [] \<Longrightarrow> prefix [x] (ys @ zs) \<longleftrightarrow> prefix [x] ys"
  by (cases ys) simp_all

lemma takeWhile_shorter: "y \<in> set xs \<Longrightarrow> \<not> P y \<Longrightarrow> length (takeWhile P xs) < length xs"
  by (induction xs) auto

lemma link_prefix_length: "prefix (js ''{@link'') p1 \<Longrightarrow> 6 \<le> length p1"
  using prefix_length_le[of "js ''{@link''" p1] by (simp add: link_length)

lemma linkInner_append:
  assumes "prefix (js ''{@link'') p1" and "\<not> list_all notBrace (drop 6 p1)"
  shows "linkInner (p1 @ t) = linkInner p1 \<and>
         (prefix (js ''}'') (drop (6 + length (linkInner p1)) (p1 @ t))
          \<longleftrightarrow> prefix (js ''}'') (drop (6 + length (linkInner p1)) p1))"
proof -
  from assms(1) have l: "6 \<le> length p1" by (rule link_prefix_length)
  from assms(2) obtain y where y: "y \<in> set (drop 6 p1)" "\<not> notBrace y"
    by (auto simp add: list_all_iff)
  then have tw: "takeWhile notBrace (drop 6 p1 @ t) = takeWhile notBrace (drop 6 p1)"
    by (rule takeWhile_append1)
  have lt: "length (takeWhile notBrace (drop 6 p1)) < length (drop 6 p1)"
    using y by (rule takeWhile_shorter)
  have 1: "linkInner (p1 @ t) = linkInner p1"
    using l tw by (simp add: linkInner_def)
  have "drop (6 + length (linkInner p1)) (p1 @ t) = drop (6 + length (linkInner p1)) p1 @ t"
    using lt l by (simp add: linkInner_def)
  moreover have "drop (6 + length (linkInner p1)) p1 \<noteq> []"
    using lt l by (simp add: linkInner_def)
  ultimately have 2: "prefix (js ''}'') (drop (6 + length (linkInner p1)) (p1 @ t))
          \<longleftrightarrow> prefix (js ''}'') (drop (6 + length (linkInner p1)) p1)"
    by (simp add: js_def prefix_single_append)
  from 1 2 show ?thesis by simp
qed

lemma linkInner_stop:
  assumes "prefix (js ''{@link'') p1" and "list_all notBrace (drop 6 p1)" and "\<not> notBrace x"
  shows "linkInner (p1 @ x # r) = drop 6 p1 \<and> linkInner p1 = drop 6 p1"
proof -
  from assms(1) have l: "6 \<le> length p1" by (rule link_prefix_length)
  have "takeWhile notBrace (drop 6 p1 @ x # r) = drop 6 p1"
    using assms(2,3) by (simp add: list_all_iff takeWhile_tail)
  moreover have "takeWhile notBrace (drop 6 p1) = drop 6 p1"
    using assms(2) by (simp add: list_all_iff)
  ultimately show ?thesis using l by (simp add: linkInner_def)
qed

lemma docMatch_local:
  assumes ne: "p1 \<noteq> []"
    and opener: "prefix (js ''{@link'') (p1 @ x # r) \<Longrightarrow> prefix (js ''{@link'') p1"
    and tags: "x \<notin> set (js ''throws'')" "x \<notin> set (js ''see'')"
    and inner: "prefix (js ''{@link'') p1 \<Longrightarrow> \<not> list_all notBrace (drop 6 p1) \<or> x = 0x7B"
  shows "docMatch (p1 @ x # r) = docMatch p1"
proof -
  have t1: "prefix (js ''@throws'') (p1 @ x # r) \<longleftrightarrow> prefix (js ''@throws'') p1"
  proof
    assume a: "prefix (js ''@throws'') (p1 @ x # r)"
    have b: "x \<notin> set (tl (js ''@throws''))" using tags(1) by (simp add: js_def)
    show "prefix (js ''@throws'') p1" by (rule prefix_overlap[OF a ne b])
  qed (rule prefix_prefix)
  have t2: "prefix (js ''@see'') (p1 @ x # r) \<longleftrightarrow> prefix (js ''@see'') p1"
  proof
    assume a: "prefix (js ''@see'') (p1 @ x # r)"
    have b: "x \<notin> set (tl (js ''@see''))" using tags(2) by (simp add: js_def)
    show "prefix (js ''@see'') p1" by (rule prefix_overlap[OF a ne b])
  qed (rule prefix_prefix)
  have o: "prefix (js ''{@link'') (p1 @ x # r) \<longleftrightarrow> prefix (js ''{@link'') p1"
  proof
    assume "prefix (js ''{@link'') (p1 @ x # r)" then show "prefix (js ''{@link'') p1" by (rule opener)
  qed (rule prefix_prefix)
  show ?thesis
  proof (cases "prefix (js ''{@link'') p1")
    case False
    then show ?thesis using o t1 t2 by (simp add: docMatch_def)
  next
    case True
    show ?thesis
    proof (cases "list_all notBrace (drop 6 p1)")
      case False
      from linkInner_append[OF True False, of "x # r"] show ?thesis
        using o t1 t2 by (simp add: docMatch_def)
    next
      case all: True
      with inner[OF True] have x: "x = 0x7B" by simp
      then have nb: "\<not> notBrace x" by (simp add: notBrace_def)
      from True have l: "6 \<le> length p1" by (rule link_prefix_length)
      from linkInner_stop[OF True all nb, of r]
      have i: "linkInner (p1 @ x # r) = drop 6 p1" "linkInner p1 = drop 6 p1" by simp_all
      have "\<not> prefix (js ''}'') (drop (6 + length (drop 6 p1)) (p1 @ x # r))"
        using l x by (simp add: js_def)
      moreover have "\<not> prefix (js ''}'') (drop (6 + length (drop 6 p1)) p1)"
        using l by (simp add: js_def)
      ultimately show ?thesis using o t1 t2 i by (simp add: docMatch_def)
    qed
  qed
qed

lemma js_link_Cons: "js ''{@link'' = 0x7B # js ''@link''" "js ''@'' = [0x40]" "js ''}'' = [0x7D]"
  by (simp_all add: js_def)

lemma docMatch_link:
  assumes "inner \<noteq> []" and "list_all notBrace inner"
  shows "docMatch (js ''{@link'' @ inner @ js ''}'' @ post) = Some (7 + length inner, inner)"
proof -
  have "takeWhile notBrace (inner @ 0x7D # post) = inner"
    using assms(2) by (simp add: list_all_iff takeWhile_tail notBrace_def)
  then have i: "linkInner (js ''{@link'' @ inner @ js ''}'' @ post) = inner"
    by (simp add: linkInner_def link_length js_link_Cons(3))
  show ?thesis
    using assms(1) by (simp add: docMatch_def i link_length)
qed

lemma replaceDocTags_link:
  assumes "inner \<noteq> []" and "list_all notBrace inner"
  shows "replaceDocTags (pre @ js ''{@link'' @ inner @ js ''}'' @ post)
     = replaceDocTags pre @ inner @ replaceDocTags post"
proof -
  let ?r = "js ''@link'' @ inner @ js ''}'' @ post"
  have "scanWith docMatch (pre @ 0x7B # ?r) = scanWith docMatch pre @ scanWith docMatch (0x7B # ?r)"
  proof (rule scanWith_append)
    show "\<And>s n rep. docMatch s = Some (n, rep) \<Longrightarrow> 0 < n \<and> n \<le> length s"
      by (rule docMatch_sound)
    fix p1 :: jsstring assume ne: "p1 \<noteq> []"
    show "docMatch (p1 @ 0x7B # ?r) = docMatch p1"
    proof (rule docMatch_local[OF ne])
      assume a: "prefix (js ''{@link'') (p1 @ 0x7B # ?r)"
      have b: "(0x7B :: jschar) \<notin> set (tl (js ''{@link''))" by (simp add: js_def)
      show "prefix (js ''{@link'') p1" by (rule prefix_overlap[OF a ne b])
    qed (simp_all add: js_def)
  qed
  moreover have "scanWith docMatch (js ''{@link'' @ inner @ js ''}'' @ post)
      = inner @ scanWith docMatch post"
  proof -
    have d: "drop (7 + length inner) (js ''{@link'' @ inner @ js ''}'' @ post) = post"
      by (simp add: link_length js_link_Cons(3))
    show ?thesis
      using scanWith_Some[of docMatch, OF docMatch_link[OF assms], of post]
      unfolding d by (simp add: link_length js_link_Cons(3))
  qed
  ultimately show ?thesis
    by (simp add: replaceDocTags_scan js_link_Cons(1) link_length[unfolded js_link_Cons(1)] js_link_Cons(3))
qed

lemma docMatch_tag:
  "docMatch (js ''@'' @ js ''throws'' @ post) = Some (7, js ''throws'')"
  "docMatch (js ''@'' @ js ''see'' @ post) = Some (4, js ''see'')"
  by (simp_all add: docMatch_def js_def)

lemma opener_before_tag:
  assumes "p1 \<noteq> []" and "tag = js ''throws'' \<or> tag = js ''see''"
    and "prefix (js ''{@link'') (p1 @ 0x40 # tag @ post)"
  shows "prefix (js ''{@link'') p1"
proof -
  from assms(1) obtain a p' where p1: "p1 = a # p'" by (cases p1) auto
  show ?thesis
  proof (cases "p' = []")
    case True
    with assms(2,3) p1 show ?thesis by (auto simp add: js_def)
  next
    case False
    from assms(3) p1 have a: "a = 0x7B" and pr: "prefix (js ''@link'') (p' @ 0x40 # tag @ post)"
      by (simp_all add: js_link_Cons(1))
    have b: "(0x40 :: jschar) \<notin> set (tl (js ''@link''))" by (simp add: js_def)
    from prefix_overlap[OF pr False b] a p1 show ?thesis by (simp add: js_link_Cons(1))
  qed
qed

lemma docMatch_open:
  assumes "prefix (js ''{@link'') p1" and "list_all notBrace (drop 6 p1)"
    and "\<not> prefix (js ''}'') (dropWhile notBrace s)"
  shows "docMatch (p1 @ s) = None \<and> docMatch p1 = None"
proof -
  from assms(1) obtain p2 where p1: "p1 = js ''{@link'' @ p2" by (auto simp add: prefix_def)
  with assms(2) have nb: "list_all notBrace p2" by (simp add: link_length)
  have tw: "takeWhile notBrace (p2 @ s) = p2 @ takeWhile notBrace s"
    using nb by (simp add: list_all_iff)
  have i1: "linkInner (p1 @ s) = p2 @ takeWhile notBrace s"
    using tw by (simp add: linkInner_def p1 link_length)
  have i2: "linkInner p1 = p2"
    using nb by (simp add: linkInner_def p1 link_length list_all_iff)
  have d1: "drop (6 + length (linkInner (p1 @ s))) (p1 @ s) = dropWhile notBrace s"
    unfolding i1 by (simp add: p1 link_length dropWhile_eq_drop)
  have d2: "drop (6 + length (linkInner p1)) p1 = []"
    unfolding i2 by (simp add: p1 link_length)
  have t: "\<not> prefix (js ''@throws'') (p1 @ s)" "\<not> prefix (js ''@see'') (p1 @ s)"
    "\<not> prefix (js ''@throws'') p1" "\<not> prefix (js ''@see'') p1"
    by (simp_all add: p1 js_def)
  have k: "\<not> prefix (js ''}'') []" by (simp add: js_def)
  show ?thesis
    unfolding docMatch_def d1 d2 using assms(3) t k by simp
qed

lemma replaceDocTags_tag:
  assumes "tag = js ''throws'' \<or> tag = js ''see''"
    and H: "\<forall>p0 p2 q r. pre = p0 @ js ''{@link'' @ p2 \<and> post = q @ js ''}'' @ r
              \<longrightarrow> \<not> list_all notBrace (p2 @ q)"
  shows "replaceDocTags (pre @ js ''@'' @ tag @ post) = replaceDocTags pre @ tag @ replaceDocTags post"
proof -
  have dw: "dropWhile notBrace (0x40 # tag @ post) = dropWhile notBrace post"
    using assms(1) by (auto simp add: js_def notBrace_def)
  have "scanWith docMatch (pre @ 0x40 # tag @ post)
      = scanWith docMatch pre @ scanWith docMatch (0x40 # tag @ post)"
  proof (rule scanWith_append)
    show "\<And>s n rep. docMatch s = Some (n, rep) \<Longrightarrow> 0 < n \<and> n \<le> length s"
      by (rule docMatch_sound)
    fix p1 :: jsstring assume ne: "p1 \<noteq> []" and suf: "suffix p1 pre"
    show "docMatch (p1 @ 0x40 # tag @ post) = docMatch p1"
    proof (cases "prefix (js ''{@link'') p1 \<and> list_all notBrace (drop 6 p1)")
      case True
      then obtain p2 where p1: "p1 = js ''{@link'' @ p2" by (auto simp add: prefix_def)
      moreover from suf obtain p0 where "pre = p0 @ p1" by (auto simp add: suffix_def)
      ultimately have pre: "pre = p0 @ js ''{@link'' @ p2" by simp
      from True p1 have nb: "list_all notBrace p2" by (simp add: link_length)
      have "\<not> prefix (js ''}'') (dropWhile notBrace post)"
      proof
        assume "prefix (js ''}'') (dropWhile notBrace post)"
        then obtain r where r: "dropWhile notBrace post = js ''}'' @ r" by (auto simp add: prefix_def)
        define q where "q = takeWhile notBrace post"
        have pq: "post = q @ js ''}'' @ r"
          using takeWhile_dropWhile_id[of notBrace post] unfolding r q_def by simp
        have q: "list_all notBrace q"
          unfolding q_def list_all_iff by (auto dest: set_takeWhileD)
        from H have "pre = p0 @ js ''{@link'' @ p2 \<and> post = q @ js ''}'' @ r
            \<longrightarrow> \<not> list_all notBrace (p2 @ q)" by blast
        from this conjI[OF pre pq] have "\<not> list_all notBrace (p2 @ q)" by (rule mp)
        with nb q show False by simp
      qed
      with dw have "\<not> prefix (js ''}'') (dropWhile notBrace (0x40 # tag @ post))" by simp
      from docMatch_open[OF True[THEN conjunct1] True[THEN conjunct2] this] show ?thesis by simp
    next
      case False
      show ?thesis
      proof (rule docMatch_local[OF ne])
        assume "prefix (js ''{@link'') (p1 @ 0x40 # tag @ post)"
        then show "prefix (js ''{@link'') p1" by (rule opener_before_tag[OF ne assms(1)])
      next
        assume "prefix (js ''{@link'') p1"
        with False show "\<not> list_all notBrace (drop 6 p1) \<or> (0x40 :: jschar) = 0x7B" by simp
      qed (simp_all add: js_def)
    qed
  qed
  moreover have "scanWith docMatch (js ''@'' @ tag @ post) = tag @ scanWith docMatch post"
    using assms(1) scanWith_Some[of docMatch, OF docMatch_tag(1), of post]
      scanWith_Some[of docMatch, OF docMatch_tag(2), of post]
    by (auto simp add: js_def)
  ultimately show ?thesis by (simp add: replaceDocTags_scan js_link_Cons(2))
qed

lemma docMatch_other: "x \<noteq> 0x7B \<Longrightarrow> x \<noteq> 0x40 \<Longrightarrow> docMatch (x # s) = None"
  by (simp add: docMatch_def js_def)

lemma scanWith_pass_through:
  "\<forall>x \<in> set w. x \<noteq> 0x7B \<and> x \<noteq> 0x40 \<Longrightarrow> scanWith docMatch (w @ v) = w @ scanWith docMatch v"
  by (induction w) (simp_all add: scanWith_None docMatch_other)

lemma takeWhile_covers:
  "length a \<le> length (takeWhile P (a @ b)) \<Longrightarrow> takeWhile P (a @ b) = a @ takeWhile P b"
proof (cases "\<forall>x \<in> set a. P x")
  case True
  then show ?thesis by simp
next
  case False
  assume l: "length a \<le> length (takeWhile P (a @ b))"
  from False obtain y where y: "y \<in> set a" "\<not> P y" by blast
  then have "takeWhile P (a @ b) = takeWhile P a" by (rule takeWhile_append1)
  moreover have "length (takeWhile P a) < length a" using y by (rule takeWhile_shorter)
  ultimately show ?thesis using l by simp
qed

lemma survives:
  assumes ne: "w \<noteq> []" and nb: "list_all notBrace w" and at: "0x40 \<notin> set w"
    and h1: "hd w \<notin> set (js ''@link'')" and h2: "hd w \<notin> set (js ''throws'')"
    and h3: "hd w \<notin> set (js ''see'')"
  shows "\<exists>a b. scanWith docMatch (u @ w @ v) = a @ w @ b"
proof (induction u rule: length_induct)
  case (1 u)
  note IH = 1[rule_format]
  from ne obtain x0 r0 where w: "w = x0 # r0" by (cases w) auto
  show ?case
  proof (cases u)
    case Nil
    have "\<forall>x \<in> set w. x \<noteq> 0x7B \<and> x \<noteq> 0x40"
      using nb at by (auto simp add: list_all_iff notBrace_def)
    from scanWith_pass_through[OF this, of v] Nil show ?thesis by (metis append_Nil)
  next
    case (Cons x u')
    then have une: "u \<noteq> []" by simp
    let ?s = "u @ w @ v"
    show ?thesis
    proof (cases "docMatch ?s")
      case None
      from IH[of u'] Cons obtain a b where "scanWith docMatch (u' @ w @ v) = a @ w @ b" by auto
      then have "scanWith docMatch ?s = (x # a) @ w @ b"
        using None Cons by (simp add: scanWith_None)
      then show ?thesis by blast
    next
      case (Some nr)
      obtain n rep where nr: "nr = (n, rep)" by (cases nr)
      from docMatch_sound[OF Some[unfolded nr]] have n: "0 < n" "n \<le> length ?s" by auto
      have step: "scanWith docMatch ?s = rep @ scanWith docMatch (drop n ?s)"
        by (rule scanWith_Some[of docMatch, OF Some[unfolded nr] n])
      show ?thesis
      proof (cases "n \<le> length u")
        case True
        then have "drop n ?s = drop n u @ w @ v" by simp
        moreover from IH[of "drop n u"] n(1) une obtain a b where
          "scanWith docMatch (drop n u @ w @ v) = a @ w @ b" by auto
        ultimately have "scanWith docMatch ?s = (rep @ a) @ w @ b" using step by simp
        then show ?thesis by blast
      next
        case False
        have s: "?s = u @ x0 # (r0 @ v)" by (simp add: w)
        have t1: "\<not> prefix (js ''@throws'') ?s"
        proof
          assume a: "prefix (js ''@throws'') ?s"
          have b: "x0 \<notin> set (tl (js ''@throws''))" using h2 w by (simp add: js_def)
          from prefix_overlap[OF a[unfolded s] une b] have "prefix (js ''@throws'') u" .
          then have "7 \<le> length u" using prefix_length_le[of "js ''@throws''" u] by (simp add: js_def)
          moreover have "n = 7"
            using Some nr a by (auto simp add: docMatch_def link_not_tag split: if_splits)
          ultimately show False using False by simp
        qed
        have t2: "\<not> prefix (js ''@see'') ?s"
        proof
          assume a: "prefix (js ''@see'') ?s"
          have b: "x0 \<notin> set (tl (js ''@see''))" using h3 w by (simp add: js_def)
          from prefix_overlap[OF a[unfolded s] une b] have "prefix (js ''@see'') u" .
          then have "4 \<le> length u" using prefix_length_le[of "js ''@see''" u] by (simp add: js_def)
          moreover have "n = 4"
            using Some nr a t1 by (auto simp add: docMatch_def link_not_tag split: if_splits)
          ultimately show False using False by simp
        qed
        from Some nr t1 t2 have l: "prefix (js ''{@link'') ?s" "rep = linkInner ?s"
          "n = 7 + length (linkInner ?s)"
          by (auto simp add: docMatch_def split: if_splits)
        have b: "x0 \<notin> set (tl (js ''{@link''))" using h1 w by (simp add: js_def)
        from prefix_overlap[OF l(1)[unfolded s] une b] have pu: "prefix (js ''{@link'') u" .
        then obtain u2 where u: "u = js ''{@link'' @ u2" by (auto simp add: prefix_def)
        have li: "linkInner ?s = takeWhile notBrace (u2 @ w @ v)"
          by (simp add: linkInner_def u link_length)
        define k where "k = length (linkInner ?s)"
        have "length u = 6 + length u2" by (simp add: u link_length)
        moreover from l(3) have "n = 7 + k" by (simp add: k_def)
        ultimately have "length u2 \<le> k" using False by simp
        moreover have "k = length (takeWhile notBrace (u2 @ w @ v))"
          unfolding k_def li ..
        ultimately have "length u2 \<le> length (takeWhile notBrace (u2 @ w @ v))" by simp
        from takeWhile_covers[OF this] have "linkInner ?s = u2 @ takeWhile notBrace (w @ v)"
          by (simp add: li)
        moreover have "takeWhile notBrace (w @ v) = w @ takeWhile notBrace v"
          using nb by (simp add: list_all_iff)
        ultimately have "rep = u2 @ w @ takeWhile notBrace v" using l(2) by simp
        with step have "scanWith docMatch ?s = u2 @ w @ (takeWhile notBrace v @ scanWith docMatch (drop n ?s))"
          by simp
        then show ?thesis by blast
      qed
    qed
  qed
qed


section \<open>The renamed copy\<close>

lemma newFileContent_passes: "newFileContent c = replaceDocTags (renamePackages c)"
  by (simp add: newFileContent_def renamePackages_def replaceDocTags_def)

lemma replacement_survives:
  assumes "f = js ''javax'' @ sep @ js ''sound'' \<or>
           f = js ''com'' @ sep @ js ''sun'' @ sep @ js ''media'' @ sep @ js ''sound''"
    and "sep \<in> set separators"
  shows "\<exists>a b. replaceDocTags (u @ (js ''gervill'' @ sep @ f) @ v) = a @ (js ''gervill'' @ sep @ f) @ b"
proof -
  let ?w = "js ''gervill'' @ sep @ f"
  from assms(2) consider "sep = js ''.''" | "sep = js ''/''" | "sep = [BACKSLASH]"
    | "sep = [BACKSLASH, BACKSLASH]"
    by (auto simp add: separators_def)
  then have p: "?w \<noteq> [] \<and> list_all notBrace ?w \<and> 0x40 \<notin> set ?w \<and> hd ?w \<notin> set (js ''@link'') \<and>
      hd ?w \<notin> set (js ''throws'') \<and> hd ?w \<notin> set (js ''see'')"
  proof cases
    case 1
    with assms(1) show ?thesis
      by (elim disjE) (simp_all add: js_def notBrace_def)
  next
    case 2
    with assms(1) show ?thesis
      by (elim disjE) (simp_all add: js_def notBrace_def)
  next
    case 3
    with assms(1) show ?thesis
      by (elim disjE) (simp_all add: js_def notBrace_def BACKSLASH_def)
  next
    case 4
    with assms(1) show ?thesis
      by (elim disjE) (simp_all add: js_def notBrace_def BACKSLASH_def)
  qed
  show ?thesis
    unfolding replaceDocTags_scan
    by (rule survives) (use p in blast)+
qed

text \<open>
  What \<open>createFileCopies\<close> writes to the file of the renamed tree: nothing but
  \<open>newFileContent\<close> of the content it was given, and that whenever it returns.
\<close>

lemma renamed_copy_written:
  "\<exists>new. snd (createFileCopies w d f c t) = t @ new \<and>
     (\<forall>x. WriteFile (renamedTree @ d @ js ''/'' @ f) x \<in> set new \<longrightarrow> x = newFileContent c) \<and>
     (fst (createFileCopies w d f c t) = Return () \<longrightarrow>
        (\<exists>before after. new = before @ [WriteFile (renamedTree @ d @ js ''/'' @ f) (newFileContent c)] @ after))"
proof -
  let ?evs = "copyEvents w d f c"
  have u: "x = newFileContent c" if "WriteFile (renamedTree @ d @ js ''/'' @ f) x \<in> set ?evs" for x
    using that trees_distinct(1)[of "[]" "[]"] trees_distinct(2)[of "[]" "[]"]
    by (auto simp add: copyEvents_def)
  have s: "?evs = take 3 ?evs @ [WriteFile (renamedTree @ d @ js ''/'' @ f) (newFileContent c)] @ drop 4 ?evs"
    by (simp add: copyEvents_def)
  from createFileCopies_cases[of w d f c t] show ?thesis
  proof
    assume r: "createFileCopies w d f c t = (Return (), t @ ?evs)"
    show ?thesis
    proof (rule exI[of _ ?evs], intro conjI allI impI)
      show "snd (createFileCopies w d f c t) = t @ ?evs" using r by simp
      show "x = newFileContent c" if "WriteFile (renamedTree @ d @ js ''/'' @ f) x \<in> set ?evs" for x
        using that by (rule u)
      show "\<exists>before after. ?evs = before @ [WriteFile (renamedTree @ d @ js ''/'' @ f) (newFileContent c)] @ after"
        using s by blast
    qed
  next
    assume "\<exists>e k. k < 6 \<and> createFileCopies w d f c t = (Throw e, t @ take k ?evs)"
    then obtain e k where r: "createFileCopies w d f c t = (Throw e, t @ take k ?evs)" by blast
    show ?thesis
    proof (rule exI[of _ "take k ?evs"], intro conjI allI impI)
      show "snd (createFileCopies w d f c t) = t @ take k ?evs" using r by simp
      show "x = newFileContent c" if "WriteFile (renamedTree @ d @ js ''/'' @ f) x \<in> set (take k ?evs)" for x
        using in_set_takeD[OF that] by (rule u)
      assume "fst (createFileCopies w d f c t) = Return ()"
      with r show "\<exists>before after. take k ?evs = before @ [WriteFile (renamedTree @ d @ js ''/'' @ f) (newFileContent c)] @ after"
        by simp
    qed
  qed
qed

lemma listingWorld_copies:
  "createFileCopies (listingWorld doc) d f c t = (Return (), t @ copyEvents (listingWorld doc) d f c)"
  using createFileCopies_cases[of "listingWorld doc" d f c t]
  by (auto simp add: createFileCopies_def await_def mkdir_def writeFile_def listingWorld_def Let_def)

lemma renamed_write_unique:
  "WriteFile (renamedTree @ d @ js ''/'' @ f) x \<in> set (copyEvents w d f c) \<longleftrightarrow> x = newFileContent c"
  using trees_distinct(1)[of "[]" "[]"] trees_distinct(2)[of "[]" "[]"]
  by (auto simp add: copyEvents_def)

text \<open>
  Claim C1: wherever the content holds one of the configured package names, written with
  one of the separators of the pattern at every dot (a dot, a slash, a backslash or two
  backslashes, the same one throughout the name), the package pass of
  \<open>createFileCopies\<close> replaces it by \<open>gervill\<close>, that separator and the matched text
  unchanged, and handles what stands before and behind it on its own. The renamed copy is
  the file that \<open>createFileCopies\<close> writes under the renamed tree: whatever the call
  writes to that path is the doc-tag pass applied to this text, which still holds the
  replacement as a whole, and a call that returns has written it.
\<close>

theorem package_reference_renamed:
  assumes "pkg \<in> set packages" and "sep \<in> set separators"
    and "occ = joinWith sep (split_on DOT pkg)"
  shows "renamePackages (pre @ occ @ post)
           = renamePackages pre @ js ''gervill'' @ sep @ occ @ renamePackages post \<and>
         (\<exists>new content a b.
            snd (createFileCopies w directory filename (pre @ occ @ post) t) = t @ new \<and>
            content = replaceDocTags (renamePackages pre @ js ''gervill'' @ sep @ occ @ renamePackages post) \<and>
            content = a @ js ''gervill'' @ sep @ occ @ b \<and>
            (\<forall>c. WriteFile (renamedTree @ directory @ js ''/'' @ filename) c \<in> set new \<longrightarrow> c = content) \<and>
            (fst (createFileCopies w directory filename (pre @ occ @ post) t) = Return () \<longrightarrow>
               (\<exists>before after.
                  new = before @ [WriteFile (renamedTree @ directory @ js ''/'' @ filename) content] @ after)))"
proof -
  let ?X = "replaceDocTags (renamePackages pre @ js ''gervill'' @ sep @ occ @ renamePackages post)"
  have r: "renamePackages (pre @ occ @ post)
           = renamePackages pre @ js ''gervill'' @ sep @ occ @ renamePackages post"
    unfolding assms(3) by (rule renamePackages_occurrence[OF assms(1,2)])
  from occurrence_cases[OF assms(1), of sep]
  have f: "occ = js ''javax'' @ sep @ js ''sound'' \<or>
           occ = js ''com'' @ sep @ js ''sun'' @ sep @ js ''media'' @ sep @ js ''sound''"
    by (simp add: assms(3))
  from replacement_survives[OF f assms(2), of "renamePackages pre" "renamePackages post"]
  obtain a b where ab: "?X = a @ js ''gervill'' @ sep @ occ @ b" by auto
  have n: "newFileContent (pre @ occ @ post) = ?X"
    by (simp add: newFileContent_passes r)
  from renamed_copy_written[of w directory filename "pre @ occ @ post" t]
  obtain new where new: "snd (createFileCopies w directory filename (pre @ occ @ post) t) = t @ new"
    "\<forall>c. WriteFile (renamedTree @ directory @ js ''/'' @ filename) c \<in> set new \<longrightarrow> c = ?X"
    "fst (createFileCopies w directory filename (pre @ occ @ post) t) = Return () \<longrightarrow>
       (\<exists>before after. new = before @ [WriteFile (renamedTree @ directory @ js ''/'' @ filename) ?X] @ after)"
    unfolding n by blast
  from new ab have "\<exists>new content a b.
            snd (createFileCopies w directory filename (pre @ occ @ post) t) = t @ new \<and>
            content = ?X \<and>
            content = a @ js ''gervill'' @ sep @ occ @ b \<and>
            (\<forall>c. WriteFile (renamedTree @ directory @ js ''/'' @ filename) c \<in> set new \<longrightarrow> c = content) \<and>
            (fst (createFileCopies w directory filename (pre @ occ @ post) t) = Return () \<longrightarrow>
               (\<exists>before after.
                  new = before @ [WriteFile (renamedTree @ directory @ js ''/'' @ filename) content] @ after))"
    by (intro exI[of _ new] exI[of _ ?X] exI[of _ a] exI[of _ b] conjI) (rule refl | assumption)+
  with r show ?thesis by (rule conjI)
qed

text \<open>
  A call on an import of a class under \<open>javax.sound\<close>, in a world where nothing fails.
\<close>

theorem package_reference_renamed_witness:
  "fst (createFileCopies (listingWorld []) (js ''javax/sound/midi'') (js ''A.java'')
          (js ''import javax.sound.midi.X;'') []) = Return () \<and>
   take 4 (snd (createFileCopies (listingWorld []) (js ''javax/sound/midi'') (js ''A.java'')
          (js ''import javax.sound.midi.X;'') [])) =
     [Mkdir (renamedTree @ js ''javax/sound/midi''),
      Mkdir (originalCompTree @ js ''javax/sound/midi''),
      Mkdir (gervillCompTree @ js ''javax/sound/midi''),
      WriteFile (renamedTree @ js ''javax/sound/midi/A.java'') (js ''import gervill.javax.sound.midi.X;'')]"
proof -
  let ?W = "listingWorld []"
  let ?d = "js ''javax/sound/midi''"
  let ?f = "js ''A.java''"
  let ?c = "js ''import '' @ js ''javax.sound'' @ js ''.midi.X;''"
  have c: "js ''import javax.sound.midi.X;'' = ?c" by (simp add: js_def)
  have a: "renamePackages (js ''import '') = js ''import ''"
    "renamePackages (js ''.midi.X;'') = js ''.midi.X;''"
    by (simp_all add: renamePackages_def run_eval)
  have b: "replaceDocTags (js ''import gervill.javax.sound.midi.X;'') = js ''import gervill.javax.sound.midi.X;''"
    by (simp add: replaceDocTags_def run_eval)
  have j: "js ''import '' @ js ''gervill'' @ js ''.'' @ js ''javax.sound'' @ js ''.midi.X;''
       = js ''import gervill.javax.sound.midi.X;''"
    by (simp add: js_def)
  have p: "js ''javax.sound'' \<in> set packages" by (simp add: packages_def)
  have s: "js ''.'' \<in> set separators" by (simp add: separators_def)
  have o: "js ''javax.sound'' = joinWith (js ''.'') (split_on DOT (js ''javax.sound''))"
    by (simp add: split_packages) (simp add: js_def)
  have run: "createFileCopies ?W ?d ?f ?c [] = (Return (), copyEvents ?W ?d ?f ?c)"
    using listingWorld_copies[of "[]" ?d ?f ?c "[]"] by simp
  from package_reference_renamed[OF p s o, of "js ''import ''" "js ''.midi.X;''" ?W ?d ?f "[]"]
  obtain new content where
    1: "snd (createFileCopies ?W ?d ?f ?c []) = [] @ new"
    and 2: "content = replaceDocTags (renamePackages (js ''import '') @ js ''gervill'' @ js ''.'' @
              js ''javax.sound'' @ renamePackages (js ''.midi.X;''))"
    and 3: "fst (createFileCopies ?W ?d ?f ?c []) = Return () \<longrightarrow>
       (\<exists>before after. new = before @ [WriteFile (renamedTree @ ?d @ js ''/'' @ ?f) content] @ after)"
    by blast
  from 2 have content: "content = js ''import gervill.javax.sound.midi.X;''"
    unfolding a j b .
  from 1 run have new: "new = copyEvents ?W ?d ?f ?c" by simp
  from 3 run obtain before after where
    "new = before @ [WriteFile (renamedTree @ ?d @ js ''/'' @ ?f) content] @ after" by auto
  then have "WriteFile (renamedTree @ ?d @ js ''/'' @ ?f) content \<in> set (copyEvents ?W ?d ?f ?c)"
    unfolding new[symmetric] by simp
  then have "newFileContent ?c = js ''import gervill.javax.sound.midi.X;''"
    unfolding renamed_write_unique content by simp
  then have "take 4 (copyEvents ?W ?d ?f ?c) =
     [Mkdir (renamedTree @ ?d), Mkdir (originalCompTree @ ?d), Mkdir (gervillCompTree @ ?d),
      WriteFile (renamedTree @ ?d @ js ''/'' @ ?f) (js ''import gervill.javax.sound.midi.X;'')]"
    by (simp add: copyEvents_def)
  moreover have "?d @ js ''/'' @ ?f = js ''javax/sound/midi/A.java''" by (simp add: js_def)
  ultimately show ?thesis unfolding c run by simp
qed

text \<open>
  Claim C2 does not hold for \<open>@throws\<close> and \<open>@see\<close>: the pattern matches the tag
  keyword only, and the replacement is the capture, which is the word without the \<open>@\<close>;
  the text behind the keyword is not part of the match and stays. And a tag inside a
  \<open>{@link ...}\<close> is part of the link's match and stays as it is.
\<close>

theorem doc_tags_counterexample:
  "newFileContent (js ''@throws IOException if closed'') = js ''throws IOException if closed'' \<and>
   newFileContent (js ''{@link @see Foo}'') = js '' @see Foo''"
  by (simp add: newFileContent_def run_eval)

text \<open>
  Claim C2, amended: in the text that the package pass leaves, every \<open>{@link\<close>,
  non-empty text without braces, \<open>}\<close> is replaced by that text; and every \<open>@throws\<close>
  or \<open>@see\<close> is replaced by \<open>throws\<close> or \<open>see\<close>, the keyword without the
  \<open>@\<close>, unless it stands inside a link that closes (no brace between a \<open>{@link\<close>
  before it and a \<open>}\<close> behind it), where it is part of the link's match. What stands
  before and behind the match is handled on its own: nothing behind the keyword is removed.
  The result is what \<open>createFileCopies\<close> writes to the file of the renamed tree, and a
  call that returns has written it.
\<close>

theorem doc_tags_replaced:
  assumes "renamePackages originalContent = pre @ occ @ post"
    and "(occ = js ''{@link'' @ rep @ js ''}'' \<and> rep \<noteq> [] \<and> list_all notBrace rep) \<or>
         (occ = js ''@'' @ rep \<and> (rep = js ''throws'' \<or> rep = js ''see'') \<and>
          (\<forall>p0 p2 q r. pre = p0 @ js ''{@link'' @ p2 \<and> post = q @ js ''}'' @ r
             \<longrightarrow> \<not> list_all notBrace (p2 @ q)))"
  shows "newFileContent originalContent = replaceDocTags pre @ rep @ replaceDocTags post \<and>
         (\<exists>new.
            snd (createFileCopies w directory filename originalContent t) = t @ new \<and>
            (\<forall>c. WriteFile (renamedTree @ directory @ js ''/'' @ filename) c \<in> set new \<longrightarrow>
                 c = replaceDocTags pre @ rep @ replaceDocTags post) \<and>
            (fst (createFileCopies w directory filename originalContent t) = Return () \<longrightarrow>
               (\<exists>before after.
                  new = before @
                    [WriteFile (renamedTree @ directory @ js ''/'' @ filename)
                       (replaceDocTags pre @ rep @ replaceDocTags post)] @ after)))"
proof -
  have n: "newFileContent originalContent = replaceDocTags pre @ rep @ replaceDocTags post"
    using assms(2)
  proof
    assume "occ = js ''{@link'' @ rep @ js ''}'' \<and> rep \<noteq> [] \<and> list_all notBrace rep"
    then show ?thesis
      using replaceDocTags_link[of rep pre post] assms(1) by (simp add: newFileContent_passes)
  next
    assume "occ = js ''@'' @ rep \<and> (rep = js ''throws'' \<or> rep = js ''see'') \<and>
          (\<forall>p0 p2 q r. pre = p0 @ js ''{@link'' @ p2 \<and> post = q @ js ''}'' @ r
             \<longrightarrow> \<not> list_all notBrace (p2 @ q))"
    then show ?thesis
      using replaceDocTags_tag[of rep pre post] assms(1) by (simp add: newFileContent_passes)
  qed
  from renamed_copy_written[of w directory filename originalContent t]
  show ?thesis unfolding n by (rule conjI[OF refl])
qed

text \<open>
  A call on a comment with both kinds of tag, the second \<open>@see\<close> behind a link that
  does not close.
\<close>

theorem doc_tags_replaced_witness:
  "fst (createFileCopies (listingWorld []) (js ''javax/sound/midi'') (js ''A.java'')
          (js ''/** @throws X if {@link Foo#bar}, {@link foo @see Bar */'') []) = Return () \<and>
   take 4 (snd (createFileCopies (listingWorld []) (js ''javax/sound/midi'') (js ''A.java'')
          (js ''/** @throws X if {@link Foo#bar}, {@link foo @see Bar */'') [])) =
     [Mkdir (renamedTree @ js ''javax/sound/midi''),
      Mkdir (originalCompTree @ js ''javax/sound/midi''),
      Mkdir (gervillCompTree @ js ''javax/sound/midi''),
      WriteFile (renamedTree @ js ''javax/sound/midi/A.java'')
        (js ''/** throws X if  Foo#bar, {@link foo see Bar */'')]"
proof -
  let ?W = "listingWorld []"
  let ?d = "js ''javax/sound/midi''"
  let ?f = "js ''A.java''"
  let ?c = "js ''/** @throws X if {@link Foo#bar}, {@link foo @see Bar */''"
  let ?pre = "js ''/** @throws X if {@link Foo#bar}, {@link foo ''"
  let ?post = "js '' Bar */''"
  have r: "renamePackages ?c = ?pre @ (js ''@'' @ js ''see'') @ ?post"
    by (simp add: renamePackages_def run_eval)
  have h: "\<forall>p0 p2 q r. ?pre = p0 @ js ''{@link'' @ p2 \<and> ?post = q @ js ''}'' @ r
      \<longrightarrow> \<not> list_all notBrace (p2 @ q)"
  proof (intro allI impI)
    fix p0 p2 q r :: jsstring
    assume e: "?pre = p0 @ js ''{@link'' @ p2 \<and> ?post = q @ js ''}'' @ r"
    have "(0x7D :: jschar) \<in> set (q @ js ''}'' @ r)" by (simp add: js_def)
    with e have "(0x7D :: jschar) \<in> set ?post" by simp
    then show "\<not> list_all notBrace (p2 @ q)" by (simp add: js_def)
  qed
  have e: "replaceDocTags ?pre = js ''/** throws X if  Foo#bar, {@link foo ''"
    "replaceDocTags ?post = ?post"
    by (simp_all add: replaceDocTags_def run_eval)
  have j: "js ''/** throws X if  Foo#bar, {@link foo '' @ js ''see'' @ ?post
      = js ''/** throws X if  Foo#bar, {@link foo see Bar */''"
    by (simp add: js_def)
  have run: "createFileCopies ?W ?d ?f ?c [] = (Return (), copyEvents ?W ?d ?f ?c)"
    using listingWorld_copies[of "[]" ?d ?f ?c "[]"] by simp
  have "newFileContent ?c = replaceDocTags ?pre @ js ''see'' @ replaceDocTags ?post"
    using doc_tags_replaced[OF r, of "js ''see''" ?W ?d ?f "[]"] h by blast
  then have "newFileContent ?c = js ''/** throws X if  Foo#bar, {@link foo see Bar */''"
    unfolding e j .
  then have "take 4 (copyEvents ?W ?d ?f ?c) =
     [Mkdir (renamedTree @ ?d), Mkdir (originalCompTree @ ?d), Mkdir (gervillCompTree @ ?d),
      WriteFile (renamedTree @ ?d @ js ''/'' @ ?f) (js ''/** throws X if  Foo#bar, {@link foo see Bar */'')]"
    by (simp add: copyEvents_def)
  moreover have "?d @ js ''/'' @ ?f = js ''javax/sound/midi/A.java''" by (simp add: js_def)
  ultimately show ?thesis unfolding run by simp
qed

end
